theory Spec2Isabelle
  imports Main
begin

section \<open>A shallow embedding of \<^verbatim>\<open>myshell.c\<close>\<close>

text \<open>
  Conventions of the embedding.
  \<^item> A value of type \<open>string\<close> is the content of a C string: the characters before the
    terminating NUL. The terminator is not part of the list, but every buffer that holds a
    string needs one more byte for it.
  \<^item> A fixed-size buffer or a heap array is modelled by its content together with its
    capacity. A write past the capacity is undefined behaviour in C; the model stops there
    with the fault \<open>Overrun\<close>, naming the buffer.
  \<^item> \<^verbatim>\<open>malloc\<close>, \<^verbatim>\<open>realloc\<close> and \<^verbatim>\<open>strdup\<close> are taken to succeed; \<^verbatim>\<open>size_t\<close> and \<^verbatim>\<open>int\<close>
    counters are natural numbers, since no string that fits in memory makes them wrap.
  \<^item> The environment is a map from names to values, read by \<^verbatim>\<open>getenv\<close> and written by
    \<^verbatim>\<open>setenv\<close>.
\<close>

subsection \<open>Constants, faults and the environment\<close>

definition MAX_LINE :: nat where
  "MAX_LINE = 1024"

definition INIT_TOKENS :: nat where
  "INIT_TOKENS = 100"

text \<open>The size of \<^verbatim>\<open>char varname[128]\<close> and the initial capacity of the expander's result.\<close>

definition VARNAME_SIZE :: nat where
  "VARNAME_SIZE = 128"

definition RESULT_CAPACITY :: nat where
  "RESULT_CAPACITY = 1024"

datatype buffer =
    Varname          \<comment> \<open>\<^verbatim>\<open>char varname[128]\<close> in \<^verbatim>\<open>expand_variable\<close>\<close>
  | Result           \<comment> \<open>the heap buffer \<^verbatim>\<open>result\<close> in \<^verbatim>\<open>expand_variable\<close>\<close>
  | Current_token    \<comment> \<open>\<^verbatim>\<open>char current_token[MAX_LINE]\<close> in \<^verbatim>\<open>parse_input\<close>\<close>
  | Tokens           \<comment> \<open>the heap array \<^verbatim>\<open>tokens\<close> in \<^verbatim>\<open>parse_input\<close>\<close>
  | New_tokens       \<comment> \<open>the heap array \<^verbatim>\<open>new_tokens\<close> in \<^verbatim>\<open>process_tokens\<close>\<close>
  | Echo_buffer      \<comment> \<open>\<^verbatim>\<open>char buffer[MAX_LINE]\<close> in the \<^verbatim>\<open>echo\<close> built-in\<close>

datatype fault =
    Overrun buffer   \<comment> \<open>a write past the end of the named buffer\<close>
  | Diverges         \<comment> \<open>a loop that never ends\<close>
  | Null_pointer     \<comment> \<open>a read through the \<^verbatim>\<open>NULL\<close> sentinel\<close>

type_synonym env = "string \<rightharpoonup> string"

text \<open>
  \<^verbatim>\<open>getenv\<close>: the value bound to the name, if any. No entry of the environment has the
  empty name (\<^verbatim>\<open>setenv\<close> refuses it), so the empty name is never found.
\<close>

definition getenv :: "env \<Rightarrow> string \<Rightarrow> string option" where
  "getenv e name = (if name = [] then None else e name)"

text \<open>
  \<^verbatim>\<open>setenv(name, value, 1)\<close>: fails (\<^verbatim>\<open>EINVAL\<close>) on an empty name or a name containing
  \<^verbatim>\<open>=\<close>, and binds the name otherwise.
\<close>

definition setenv :: "env \<Rightarrow> string \<Rightarrow> string \<Rightarrow> env option" where
  "setenv e name v =
     (if name = [] \<or> CHR ''='' \<in> set name then None else Some (e(name \<mapsto> v)))"

text \<open>
  \<^verbatim>\<open>isalnum\<close> in the C locale (the program never calls \<^verbatim>\<open>setlocale\<close>): the ASCII letters and
  digits. The program passes a plain \<^verbatim>\<open>char\<close>; for the bytes above 127 the answer taken here
  is the one of the C library, false.
\<close>

definition isalnum :: "char \<Rightarrow> bool" where
  "isalnum c =
     (let n = (of_char c :: nat) in
      (48 \<le> n \<and> n \<le> 57) \<or> (65 \<le> n \<and> n \<le> 90) \<or> (97 \<le> n \<and> n \<le> 122))"

subsection \<open>The Variable Expander: \<^verbatim>\<open>expand_variable\<close>\<close>

text \<open>
  The inner loop (lines 232--235): copy the characters of the name into \<^verbatim>\<open>varname\<close>, index
  \<open>j = length varname\<close>, then write the terminator at \<open>varname[j]\<close>. It returns the name
  and the rest of the token, which starts at the first character that is not part of the
  name.
\<close>

fun scan_varname :: "string \<Rightarrow> string \<Rightarrow> fault + (string \<times> string)" where
  "scan_varname [] varname =
     (if length varname < VARNAME_SIZE then Inr (varname, []) else Inl (Overrun Varname))"
| "scan_varname (c # cs) varname =
     (if c = CHR ''_'' \<or> isalnum c then
        (if length varname < VARNAME_SIZE then scan_varname cs (varname @ [c])
         else Inl (Overrun Varname))
      else
        (if length varname < VARNAME_SIZE then Inr (varname, c # cs)
         else Inl (Overrun Varname)))"

text \<open>
  Lines 242--249: \<^verbatim>\<open>while (len + vlen + 1 > capacity) capacity *= 2\<close>. A capacity of zero
  would never grow; the result is \<open>None\<close> then.
\<close>

function grow_capacity :: "nat \<Rightarrow> nat \<Rightarrow> nat option" where
  "grow_capacity need capacity =
     (if need \<le> capacity then Some capacity
      else if capacity = 0 then None
      else grow_capacity need (capacity * 2))"
  by pat_completeness auto
termination
  by (relation "measure (\<lambda>(need, capacity). need - capacity)") auto

lemma scan_varname_rest:
  "scan_varname cs varname = Inr (name, rest) \<Longrightarrow> length rest \<le> length cs"
proof (induction cs arbitrary: varname)
  case Nil
  then show ?case by (simp split: if_splits)
next
  case (Cons c cs)
  show ?case
  proof (cases "(c = CHR ''_'' \<or> isalnum c) \<and> length varname < VARNAME_SIZE")
    case True
    with Cons.prems have "scan_varname cs (varname @ [c]) = Inr (name, rest)" by simp
    from Cons.IH [OF this] show ?thesis by simp
  next
    case False
    with Cons.prems show ?thesis by (auto split: if_splits)
  qed
qed

text \<open>
  The outer loop (lines 226--267), over the rest of the token, with the result built so
  far and its capacity. \<^verbatim>\<open>strcat(result, value)\<close> writes the value and a terminator after the
  \<open>len\<close> bytes of the result; the other branch writes \<open>result[len]\<close> and \<open>result[len+1]\<close>.
\<close>

function expand_loop :: "env \<Rightarrow> string \<Rightarrow> string \<Rightarrow> nat \<Rightarrow> fault + string" where
  "expand_loop e [] result capacity = Inr result"
| "expand_loop e (c # cs) result capacity =
     (if c = CHR ''$'' then
        (case scan_varname cs [] of
           Inl f \<Rightarrow> Inl f
         | Inr (varname, rest) \<Rightarrow>
             (let v = (case getenv e varname of None \<Rightarrow> [] | Some x \<Rightarrow> x) in
              case grow_capacity (length result + length v + 1) capacity of
                None \<Rightarrow> Inl Diverges
              | Some capacity' \<Rightarrow>
                  if capacity' < length result + length v + 1 then Inl (Overrun Result)
                  else expand_loop e rest (result @ v) capacity'))
      else
        (let capacity' = (if capacity < length result + 2 then capacity * 2 else capacity) in
         if capacity' < length result + 2 then Inl (Overrun Result)
         else expand_loop e cs (result @ [c]) capacity'))"
  by pat_completeness auto
termination
proof (relation "measure (\<lambda>(e, cs, result, capacity). length cs)", goal_cases)
  case 1
  show ?case by simp
next
  case (2 e c cs result capacity x2 x y xa x2a)
  then show ?case using scan_varname_rest [of cs "[]" x y] by simp
next
  case 3
  then show ?case by simp
qed

definition expand_variable :: "env \<Rightarrow> string \<Rightarrow> fault + string" where
  "expand_variable e token = expand_loop e token [] RESULT_CAPACITY"

subsection \<open>The Tokenizer: \<^verbatim>\<open>parse_input\<close>\<close>

definition DQUOTE :: char where
  "DQUOTE = CHR 0x22"

definition SPACE :: char where
  "SPACE = CHR 0x20"

definition TAB :: char where
  "TAB = CHR 0x09"

text \<open>
  The loop of lines 176--201 over the rest of the input. \<open>tokens\<close> holds the
  \<open>token_index = length tokens\<close> entries written so far into an array of \<open>tokens_cap\<close>
  pointers; \<open>current_token\<close> holds the \<open>ct_index = length current_token\<close> characters written
  so far into a buffer of \<open>MAX_LINE\<close> bytes. The array grows after a token is stored, when
  it has become full (lines 188--195).
\<close>

fun parse_loop ::
  "string \<Rightarrow> string list \<Rightarrow> nat \<Rightarrow> string \<Rightarrow> bool \<Rightarrow> fault + (string list \<times> nat \<times> string)"
where
  "parse_loop [] tokens tokens_cap current_token in_quotes =
     Inr (tokens, tokens_cap, current_token)"
| "parse_loop (c # cs) tokens tokens_cap current_token in_quotes =
     (if c = DQUOTE then parse_loop cs tokens tokens_cap current_token (\<not> in_quotes)
      else if (c = SPACE \<or> c = TAB) \<and> \<not> in_quotes then
        (if 0 < length current_token then
           (if MAX_LINE \<le> length current_token then Inl (Overrun Current_token)
            else if tokens_cap \<le> length tokens then Inl (Overrun Tokens)
            else parse_loop cs (tokens @ [current_token])
                   (if tokens_cap \<le> length tokens + 1 then tokens_cap + INIT_TOKENS
                    else tokens_cap)
                   [] in_quotes)
         else parse_loop cs tokens tokens_cap current_token in_quotes)
      else
        (if MAX_LINE \<le> length current_token then Inl (Overrun Current_token)
         else parse_loop cs tokens tokens_cap (current_token @ [c]) in_quotes))"

text \<open>
  After the loop (lines 203--208) the last token is stored without growing the array, and
  the \<^verbatim>\<open>NULL\<close> sentinel is written at \<open>tokens[token_index]\<close>.
\<close>

definition parse_input :: "string \<Rightarrow> fault + string list" where
  "parse_input input =
     (case parse_loop input [] INIT_TOKENS [] False of
        Inl f \<Rightarrow> Inl f
      | Inr (tokens, tokens_cap, current_token) \<Rightarrow>
          if 0 < length current_token then
            (if MAX_LINE \<le> length current_token then Inl (Overrun Current_token)
             else if tokens_cap \<le> length tokens then Inl (Overrun Tokens)
             else if tokens_cap \<le> length tokens + 1 then Inl (Overrun Tokens)
             else Inr (tokens @ [current_token]))
          else if tokens_cap \<le> length tokens then Inl (Overrun Tokens)
          else Inr tokens)"

subsection \<open>The Token Post-Processor: \<^verbatim>\<open>process_tokens\<close>\<close>

text \<open>
  \<^verbatim>\<open>strtok\<close>: skip the delimiters at the start; at the end of the string there is no word;
  otherwise the word runs up to the next delimiter, which is overwritten by a terminator,
  and the search resumes behind it at the next call. The result is the word and the rest
  of the string that the next call \<^verbatim>\<open>strtok(NULL, delims)\<close> sees.
\<close>

definition strtok :: "string \<Rightarrow> string \<Rightarrow> (string \<times> string) option" where
  "strtok s delims =
     (let s1 = dropWhile (\<lambda>c. c \<in> set delims) s in
      if s1 = [] then None
      else Some (takeWhile (\<lambda>c. c \<notin> set delims) s1,
                 drop 1 (dropWhile (\<lambda>c. c \<notin> set delims) s1)))"

lemma strtok_shorter: "strtok s delims = Some (w, rest) \<Longrightarrow> length rest < length s"
proof -
  assume a: "strtok s delims = Some (w, rest)"
  let ?s1 = "dropWhile (\<lambda>c. c \<in> set delims) s"
  from a have ne: "?s1 \<noteq> []" and rest: "rest = drop 1 (dropWhile (\<lambda>c. c \<notin> set delims) ?s1)"
    by (auto simp: strtok_def Let_def split: if_splits)
  have 1: "length (dropWhile (\<lambda>c. c \<notin> set delims) ?s1) \<le> length ?s1"
    by (rule length_dropWhile_le)
  have 2: "length ?s1 \<le> length s" by (rule length_dropWhile_le)
  from ne have 3: "0 < length ?s1" by (simp del: dropWhile_eq_Nil_conv)
  from rest have 4: "length rest = length (dropWhile (\<lambda>c. c \<notin> set delims) ?s1) - 1"
    by simp
  from 1 2 3 4 show ?thesis by linarith
qed

text \<open>
  Storing one entry (lines 295--304 and 311--319): the array \<open>new_tokens\<close> of \<open>newSize\<close>
  pointers holds \<open>count = length new_tokens\<close> entries and grows before the write when it
  is full.
\<close>

definition push_new_token :: "string list \<Rightarrow> nat \<Rightarrow> string \<Rightarrow> fault + (string list \<times> nat)" where
  "push_new_token new_tokens newSize w =
     (let newSize' = (if newSize \<le> length new_tokens then newSize + INIT_TOKENS else newSize) in
      if newSize' \<le> length new_tokens then Inl (Overrun New_tokens)
      else Inr (new_tokens @ [w], newSize'))"

text \<open>The loop of lines 292--306 over the words of one expanded token.\<close>

function split_words :: "string \<Rightarrow> string list \<Rightarrow> nat \<Rightarrow> fault + (string list \<times> nat)" where
  "split_words s new_tokens newSize =
     (case strtok s [SPACE, TAB] of
        None \<Rightarrow> Inr (new_tokens, newSize)
      | Some (word, rest) \<Rightarrow>
          (case push_new_token new_tokens newSize word of
             Inl f \<Rightarrow> Inl f
           | Inr (new_tokens', newSize') \<Rightarrow> split_words rest new_tokens' newSize'))"
  by pat_completeness auto
termination
  by (relation "measure (\<lambda>(s, new_tokens, newSize). length s)") (auto simp: strtok_shorter)

text \<open>The loop of lines 284--321 over the tokens.\<close>

fun process_loop :: "env \<Rightarrow> string list \<Rightarrow> string list \<Rightarrow> nat \<Rightarrow> fault + (string list \<times> nat)" where
  "process_loop e [] new_tokens newSize = Inr (new_tokens, newSize)"
| "process_loop e (t # ts) new_tokens newSize =
     (case expand_variable e t of
        Inl f \<Rightarrow> Inl f
      | Inr expanded \<Rightarrow>
          if SPACE \<in> set expanded \<or> TAB \<in> set expanded then
            (case split_words expanded new_tokens newSize of
               Inl f \<Rightarrow> Inl f
             | Inr (new_tokens', newSize') \<Rightarrow> process_loop e ts new_tokens' newSize')
          else
            (case push_new_token new_tokens newSize expanded of
               Inl f \<Rightarrow> Inl f
             | Inr (new_tokens', newSize') \<Rightarrow> process_loop e ts new_tokens' newSize'))"

text \<open>Line 322 writes the \<^verbatim>\<open>NULL\<close> sentinel at \<open>new_tokens[count]\<close>.\<close>

definition process_tokens :: "env \<Rightarrow> string list \<Rightarrow> fault + string list" where
  "process_tokens e tokens =
     (case process_loop e tokens [] INIT_TOKENS of
        Inl f \<Rightarrow> Inl f
      | Inr (new_tokens, newSize) \<Rightarrow>
          if newSize \<le> length new_tokens then Inl (Overrun New_tokens) else Inr new_tokens)"

subsection \<open>The state of the interpreter and the operating system\<close>

text \<open>
  What the process writes to standard error. \<^verbatim>\<open>perror(s)\<close> prints \<open>s\<close>, a colon and the
  message of the current \<^verbatim>\<open>errno\<close>; \<^verbatim>\<open>fprintf\<close> prints its format, here with at most one
  \<^verbatim>\<open>%d\<close> argument.
\<close>

datatype message =
    Perror string int       \<comment> \<open>\<^verbatim>\<open>perror(s)\<close> under the given \<^verbatim>\<open>errno\<close>\<close>
  | Fprintf string          \<comment> \<open>\<^verbatim>\<open>fprintf(stderr, s)\<close>\<close>
  | Fprintf_d string int    \<comment> \<open>\<^verbatim>\<open>fprintf(stderr, s, n)\<close> with one \<^verbatim>\<open>%d\<close>\<close>

record shell_state =
  environ :: env                \<comment> \<open>the environment of the process\<close>
  cwd :: string                 \<comment> \<open>its working directory\<close>
  errno :: int                  \<comment> \<open>the last-error indicator\<close>
  stdout :: string              \<comment> \<open>what it has written to standard output\<close>
  stderr :: "message list"      \<comment> \<open>what it has written to standard error\<close>
  log_txt :: "string list"      \<comment> \<open>what it has appended to \<^verbatim>\<open>log.txt\<close>\<close>

text \<open>
  The file system, as far as \<^verbatim>\<open>chdir\<close> sees it: from the working directory and the path
  given, the error number of a failed call or the working directory after a successful one.
\<close>

type_synonym filesystem = "string \<Rightarrow> string \<Rightarrow> int + string"

definition chdir :: "filesystem \<Rightarrow> shell_state \<Rightarrow> string \<Rightarrow> shell_state \<times> bool" where
  "chdir fs s path =
     (case fs (cwd s) path of
        Inl e \<Rightarrow> (s\<lparr>errno := e\<rparr>, False)
      | Inr d \<Rightarrow> (s\<lparr>cwd := d\<rparr>, True))"

definition perror :: "string \<Rightarrow> shell_state \<Rightarrow> shell_state" where
  "perror msg s = s\<lparr>stderr := stderr s @ [Perror msg (errno s)]\<rparr>"

definition EINVAL :: int where
  "EINVAL = 22"

definition NEWLINE :: char where
  "NEWLINE = CHR 0x0A"

subsection \<open>The Built-in Dispatcher: \<^verbatim>\<open>execute_shell_builtin\<close>\<close>

text \<open>Lines 333--337: \<^verbatim>\<open>cd\<close> without an argument, or with \<^verbatim>\<open>~\<close> alone.\<close>

definition cd_home :: "filesystem \<Rightarrow> shell_state \<Rightarrow> shell_state" where
  "cd_home fs s =
     (let home = (case getenv (environ s) ''HOME'' of None \<Rightarrow> ''/'' | Some h \<Rightarrow> h) in
      case chdir fs s home of
        (s', True) \<Rightarrow> s'
      | (s', False) \<Rightarrow> perror ''cd'' s')"

text \<open>
  Lines 339--359: \<^verbatim>\<open>cd\<close> with another argument. \<^verbatim>\<open>snprintf\<close> and \<^verbatim>\<open>strncpy\<close> keep at most
  \<open>MAX_LINE - 1\<close> characters of the path.
\<close>

definition cd_path :: "filesystem \<Rightarrow> shell_state \<Rightarrow> string \<Rightarrow> shell_state" where
  "cd_path fs s arg =
     (case (case arg of
              c # suffix \<Rightarrow>
                if c = CHR ''~'' then
                  (case getenv (environ s) ''HOME'' of
                     Some home \<Rightarrow> Some (take (MAX_LINE - 1) (home @ suffix))
                   | None \<Rightarrow> None)
                else Some (take (MAX_LINE - 1) arg)
            | [] \<Rightarrow> Some (take (MAX_LINE - 1) arg)) of
        None \<Rightarrow> perror ''HOME not set'' s
      | Some new_path \<Rightarrow>
          (case chdir fs s new_path of
             (s', True) \<Rightarrow> s'
           | (s', False) \<Rightarrow> perror ''cd'' s'))"

text \<open>
  Lines 365--374: the arguments of \<^verbatim>\<open>echo\<close> are expanded and concatenated by \<^verbatim>\<open>strcat\<close> into
  \<^verbatim>\<open>char buffer[MAX_LINE]\<close>, which has room for \<open>MAX_LINE - 1\<close> characters and the terminator.
\<close>

fun echo_loop :: "env \<Rightarrow> string list \<Rightarrow> string \<Rightarrow> fault + string" where
  "echo_loop e [] buffer = Inr buffer"
| "echo_loop e (t # ts) buffer =
     (case expand_variable e t of
        Inl f \<Rightarrow> Inl f
      | Inr expanded \<Rightarrow>
          if MAX_LINE \<le> length (buffer @ expanded) then Inl (Overrun Echo_buffer)
          else if ts \<noteq> [] then
            (if MAX_LINE \<le> length (buffer @ expanded @ [SPACE]) then Inl (Overrun Echo_buffer)
             else echo_loop e ts (buffer @ expanded @ [SPACE]))
          else echo_loop e ts (buffer @ expanded))"

text \<open>
  Lines 381--397: \<^verbatim>\<open>export\<close>. The argument is cut at its first \<^verbatim>\<open>=\<close>.
\<close>

definition export :: "shell_state \<Rightarrow> string list \<Rightarrow> shell_state" where
  "export s args =
     (case args of
        [] \<Rightarrow> s\<lparr>stderr := stderr s @ [Fprintf ''export: missing argument\<newline>'']\<rparr>
      | arg # _ \<Rightarrow>
          if CHR ''='' \<notin> set arg then
            s\<lparr>stderr := stderr s @ [Fprintf ''export: invalid argument\<newline>'']\<rparr>
          else
            (let var = takeWhile (\<lambda>c. c \<noteq> CHR ''='') arg;
                 val = drop 1 (dropWhile (\<lambda>c. c \<noteq> CHR ''='') arg) in
             case setenv (environ s) var val of
               None \<Rightarrow> perror ''export'' (s\<lparr>errno := EINVAL\<rparr>)
             | Some e' \<Rightarrow> s\<lparr>environ := e'\<rparr>))"

text \<open>
  The function is called with at least one token; \<open>tokens[0]\<close> of an empty list would be
  the \<^verbatim>\<open>NULL\<close> sentinel, which \<^verbatim>\<open>strcmp\<close> must not read.
\<close>

definition execute_shell_builtin ::
  "filesystem \<Rightarrow> shell_state \<Rightarrow> string list \<Rightarrow> fault + shell_state" where
  "execute_shell_builtin fs s tokens =
     (case tokens of
        [] \<Rightarrow> Inl Null_pointer
      | t0 # args \<Rightarrow>
          if t0 = ''cd'' then
            (case args of
               [] \<Rightarrow> Inr (cd_home fs s)
             | arg # _ \<Rightarrow> if arg = ''~'' then Inr (cd_home fs s) else Inr (cd_path fs s arg))
          else if t0 = ''echo'' then
            (if args \<noteq> [] then
               (case echo_loop (environ s) args [] of
                  Inl f \<Rightarrow> Inl f
                | Inr buffer \<Rightarrow> Inr (s\<lparr>stdout := stdout s @ buffer @ [NEWLINE]\<rparr>))
             else Inr s)
          else if t0 = ''export'' then Inr (export s args)
          else Inr s)"

subsection \<open>The Process Launcher: \<^verbatim>\<open>execute_command\<close>\<close>

text \<open>
  How a child ended, as \<^verbatim>\<open>WIFEXITED\<close>, \<^verbatim>\<open>WIFSIGNALED\<close> and \<^verbatim>\<open>WTERMSIG\<close> read the status word.
\<close>

datatype wstatus = Exited int | Signaled int

datatype fork_result =
    Fork_failed int      \<comment> \<open>\<^verbatim>\<open>fork\<close> returned \<open>-1\<close>, with this \<^verbatim>\<open>errno\<close>\<close>
  | Fork_child           \<comment> \<open>\<^verbatim>\<open>fork\<close> returned \<open>0\<close>: this is the child\<close>
  | Fork_parent int      \<comment> \<open>\<^verbatim>\<open>fork\<close> returned the child's process id\<close>

datatype waitpid_result =
    Wait_failed int      \<comment> \<open>\<^verbatim>\<open>waitpid\<close> returned \<open>-1\<close>, with this \<^verbatim>\<open>errno\<close>\<close>
  | Waited wstatus       \<comment> \<open>\<^verbatim>\<open>waitpid\<close> returned the process id and stored this status\<close>

text \<open>
  The answers of the kernel to one call of \<^verbatim>\<open>execute_command\<close>: what \<^verbatim>\<open>fork\<close> returns, what
  \<^verbatim>\<open>waitpid(pid, &status, options)\<close> returns for each process id and options word, and the
  \<^verbatim>\<open>errno\<close> of \<^verbatim>\<open>execvp\<close> on an argument list when it fails (\<open>None\<close> when it succeeds and the
  program image is replaced).
\<close>

record kernel =
  fork :: fork_result
  waitpid :: "int \<Rightarrow> int \<Rightarrow> waitpid_result"
  execvp :: "string list \<Rightarrow> int option"

text \<open>
  How the call ends: it returns to the loop (in the parent), or the process has become the
  program of \<open>tokens\<close>, or it has called \<^verbatim>\<open>exit\<close> with a status.
\<close>

datatype launch =
    Returned shell_state
  | Replaced "string list"
  | Exited_with int shell_state

definition EXIT_FAILURE :: int where
  "EXIT_FAILURE = 1"

definition execute_command :: "kernel \<Rightarrow> shell_state \<Rightarrow> string list \<Rightarrow> bool \<Rightarrow> launch" where
  "execute_command k s tokens background =
     (case fork k of
        Fork_failed e \<Rightarrow> Returned (perror ''fork'' (s\<lparr>errno := e\<rparr>))
      | Fork_child \<Rightarrow>
          (case execvp k tokens of
             None \<Rightarrow> Replaced tokens
           | Some e \<Rightarrow> Exited_with EXIT_FAILURE (perror ''execvp'' (s\<lparr>errno := e\<rparr>)))
      | Fork_parent pid \<Rightarrow>
          if \<not> background then
            (case waitpid k pid 0 of
               Wait_failed e \<Rightarrow> Returned (perror ''waitpid'' (s\<lparr>errno := e\<rparr>))
             | Waited (Signaled n) \<Rightarrow>
                 Returned (s\<lparr>stderr := stderr s @
                   [Fprintf_d ''Child terminated abnormally by signal %d\<newline>'' n]\<rparr>)
             | Waited (Exited n) \<Rightarrow> Returned s)
          else Returned s)"

subsection \<open>The Reaper: \<^verbatim>\<open>on_child_exit\<close>\<close>

text \<open>
  For each terminated child that \<^verbatim>\<open>waitpid(-1, &status, WNOHANG)\<close> finds: what \<^verbatim>\<open>open\<close>
  returns for the log file (an error number, or a descriptor), the error number of
  \<^verbatim>\<open>write\<close> if it fails, and that of \<^verbatim>\<open>close\<close> if it fails.
\<close>

record reaped =
  child_pid :: int
  open_log :: "int + int"
  write_log :: "int option"
  close_log :: "int option"

text \<open>
  The loop of lines 46--55 over the children that have terminated. When none is left,
  \<^verbatim>\<open>waitpid\<close> returns \<open>0\<close> (\<open>None\<close>) or \<open>-1\<close> with an error number, and the loop ends.
\<close>

fun reap_loop :: "reaped list \<Rightarrow> int option \<Rightarrow> shell_state \<Rightarrow> shell_state" where
  "reap_loop [] last_wait s = (case last_wait of None \<Rightarrow> s | Some e \<Rightarrow> s\<lparr>errno := e\<rparr>)"
| "reap_loop (z # zs) last_wait s =
     (case open_log z of
        Inl e \<Rightarrow> reap_loop zs last_wait (s\<lparr>errno := e\<rparr>)
      | Inr fd \<Rightarrow>
          (let s1 = (case write_log z of
                       None \<Rightarrow> s\<lparr>log_txt := log_txt s @ [''Child process was terminated\<newline>'']\<rparr>
                     | Some e \<Rightarrow> s\<lparr>errno := e\<rparr>);
               s2 = (case close_log z of None \<Rightarrow> s1 | Some e \<Rightarrow> s1\<lparr>errno := e\<rparr>)
           in reap_loop zs last_wait s2))"

definition on_child_exit :: "reaped list \<Rightarrow> int option \<Rightarrow> shell_state \<Rightarrow> shell_state" where
  "on_child_exit zombies last_wait s =
     (let saved_errno = errno s;
          s' = reap_loop zombies last_wait s
      in s'\<lparr>errno := saved_errno\<rparr>)"

subsection \<open>One cycle of the loop of \<^verbatim>\<open>shell\<close>\<close>

text \<open>
  The body of the loop from line 104 on, for a line that \<^verbatim>\<open>scanf\<close> has read: at least one
  and at most 1023 characters, none of them a newline. The prompt is not modelled.
\<close>

datatype cycle =
    Continue shell_state             \<comment> \<open>the loop goes on to the next prompt\<close>
  | Exit_shell shell_state           \<comment> \<open>\<^verbatim>\<open>exit\<close>: the loop is left\<close>
  | Child_replaced "string list"     \<comment> \<open>in the child: the program was executed\<close>
  | Child_exited int shell_state     \<comment> \<open>in the child: \<^verbatim>\<open>execvp\<close> failed\<close>

definition shell_cycle :: "kernel \<Rightarrow> filesystem \<Rightarrow> shell_state \<Rightarrow> string \<Rightarrow> fault + cycle" where
  "shell_cycle k fs s input =
     (case parse_input input of
        Inl f \<Rightarrow> Inl f
      | Inr tokens \<Rightarrow>
          (case tokens of
             [] \<Rightarrow> Inr (Continue s)
           | t0 # _ \<Rightarrow>
               if t0 = ''exit'' then Inr (Exit_shell s)
               else if t0 = ''cd'' \<or> t0 = ''echo'' \<or> t0 = ''export'' then
                 (case execute_shell_builtin fs s tokens of
                    Inl f \<Rightarrow> Inl f
                  | Inr s' \<Rightarrow> Inr (Continue s'))
               else
                 (case process_tokens (environ s) tokens of
                    Inl f \<Rightarrow> Inl f
                  | Inr processed_tokens \<Rightarrow>
                      (let bg = (processed_tokens \<noteq> [] \<and> last processed_tokens = ''&'');
                           argv = (if bg then butlast processed_tokens else processed_tokens)
                       in case execute_command k s argv bg of
                            Returned s' \<Rightarrow> Inr (Continue s')
                          | Replaced program \<Rightarrow> Inr (Child_replaced program)
                          | Exited_with n s' \<Rightarrow> Inr (Child_exited n s')))))"

text \<open>
  The loop of \<^verbatim>\<open>shell\<close> (lines 79--157) over the lines that it reads one after the other,
  each with the answers of the kernel and of the file system during its cycle. The loop
  ends at \<^verbatim>\<open>exit\<close>, in a child, or at a fault; when the lines are used up it is at the
  prompt for the next one.
\<close>

fun shell :: "(kernel \<times> filesystem \<times> string) list \<Rightarrow> shell_state \<Rightarrow> fault + cycle" where
  "shell [] s = Inr (Continue s)"
| "shell ((k, fs, input) # rest) s =
     (case shell_cycle k fs s input of
        Inr (Continue s') \<Rightarrow> shell rest s'
      | other \<Rightarrow> other)"

subsection \<open>The children of the process and the delivery of \<^verbatim>\<open>SIGCHLD\<close>\<close>

text \<open>
  The children that the process has created and not yet waited for: the process id, how
  the child ends, and whether it has ended already.
\<close>

type_synonym children = "(int \<times> wstatus \<times> bool) list"

definition ECHILD :: int where
  "ECHILD = 10"

text \<open>
  \<^verbatim>\<open>waitpid(pid, &status, 0)\<close>: fails with \<^verbatim>\<open>ECHILD\<close> when \<open>pid\<close> is not a child that can
  still be waited for; otherwise it blocks until that child has ended and stores how.
\<close>

definition wait_for :: "children \<Rightarrow> int \<Rightarrow> waitpid_result" where
  "wait_for cs pid =
     (case [st. (p, st, ended) \<leftarrow> cs, p = pid] of
        [] \<Rightarrow> Wait_failed ECHILD
      | st # _ \<Rightarrow> Waited st)"

text \<open>
  A run of the handler that line 30 installs for \<^verbatim>\<open>SIGCHLD\<close>: its calls
  \<^verbatim>\<open>waitpid(-1, &status, WNOHANG)\<close> collect every child that has ended, whichever it is; the
  last call returns \<open>0\<close> when children are left and fails with \<^verbatim>\<open>ECHILD\<close> when none is.
  \<open>io\<close> gives the results of the calls on the log file for each child collected.
\<close>

definition sigchld :: "(int \<Rightarrow> reaped) \<Rightarrow> children \<Rightarrow> shell_state \<Rightarrow> children \<times> shell_state" where
  "sigchld io cs s =
     (let zombies = [p. (p, st, ended) \<leftarrow> cs, ended];
          others = [c \<leftarrow> cs. \<not> snd (snd c)]
      in (others, on_child_exit (map io zombies) (if others = [] then Some ECHILD else None) s))"

text \<open>
  A foreground launch in the parent: \<^verbatim>\<open>fork\<close> has returned \<open>pid\<close>, and the child has ended
  with status \<open>st\<close> before the parent reaches \<^verbatim>\<open>waitpid\<close> at line 421. The signal that
  announces it is delivered either before that call, and the handler runs first, or after
  it. Between \<^verbatim>\<open>fork\<close> and \<^verbatim>\<open>waitpid\<close> the function \<^verbatim>\<open>execute_command\<close> reads and writes
  nothing of the state, so the run of the handler is a run on the state that it starts
  from; \<^verbatim>\<open>waitpid\<close> answers from the children that are left.
\<close>

definition foreground_launch ::
  "int \<Rightarrow> wstatus \<Rightarrow> bool \<Rightarrow> (int \<Rightarrow> reaped) \<Rightarrow> shell_state \<Rightarrow> string list \<Rightarrow> launch" where
  "foreground_launch pid st handler_first io s tokens =
     (let cs = [(pid, st, True)];
          (cs', s') = (if handler_first then sigchld io cs s else (cs, s))
      in execute_command
           \<lparr>fork = Fork_parent pid,
            waitpid = (\<lambda>p options. wait_for cs' p),
            execvp = (\<lambda>argv. None)\<rparr>
           s' tokens False)"

section \<open>Definitions for the properties\<close>

subsection \<open>The expansion of a token\<close>

text \<open>
  The expansion as the specification words it: every \<open>$\<close> together with the longest run
  of letters, digits and underscores after it is replaced by the value of that name, or by
  nothing when the name is unset or empty; every other character is copied.
\<close>

definition ident_char :: "char \<Rightarrow> bool" where
  "ident_char c = (c = CHR ''_'' \<or> isalnum c)"

function expansion :: "env \<Rightarrow> string \<Rightarrow> string" where
  "expansion e [] = []"
| "expansion e (c # cs) =
     (if c = CHR ''$'' then
        (case getenv e (takeWhile ident_char cs) of None \<Rightarrow> [] | Some v \<Rightarrow> v)
          @ expansion e (dropWhile ident_char cs)
      else c # expansion e cs)"
  by pat_completeness auto
termination
  by (relation "measure (\<lambda>(e, cs). length cs)") (auto simp: less_Suc_eq_le length_dropWhile_le)

text \<open>
  The tokens that \<^verbatim>\<open>char varname[128]\<close> can take: every name in the token, read as the
  expansion reads it, is shorter than the buffer.
\<close>

function names_fit :: "string \<Rightarrow> bool" where
  "names_fit [] = True"
| "names_fit (c # cs) =
     (if c = CHR ''$'' then
        length (takeWhile ident_char cs) < VARNAME_SIZE \<and> names_fit (dropWhile ident_char cs)
      else names_fit cs)"
  by pat_completeness auto
termination
  by (relation "measure length") (auto simp: less_Suc_eq_le length_dropWhile_le)

subsection \<open>The tokens of a line\<close>

text \<open>
  The scan of the Tokenizer without its buffers, from the rest of the line, the token
  under construction and the quoting mode: the tokens closed by a separator, and the token
  still open when the line ends. Together they are the tokens of the line.
\<close>

definition blank :: "char \<Rightarrow> bool" where
  "blank c = (c = SPACE \<or> c = TAB)"

fun closed_tokens :: "string \<Rightarrow> string \<Rightarrow> bool \<Rightarrow> string list" where
  "closed_tokens [] cur q = []"
| "closed_tokens (c # cs) cur q =
     (if c = DQUOTE then closed_tokens cs cur (\<not> q)
      else if blank c \<and> \<not> q then
        (if cur = [] then closed_tokens cs [] q else cur # closed_tokens cs [] q)
      else closed_tokens cs (cur @ [c]) q)"

fun open_token :: "string \<Rightarrow> string \<Rightarrow> bool \<Rightarrow> string" where
  "open_token [] cur q = cur"
| "open_token (c # cs) cur q =
     (if c = DQUOTE then open_token cs cur (\<not> q)
      else if blank c \<and> \<not> q then open_token cs [] q
      else open_token cs (cur @ [c]) q)"

definition tokenize :: "string \<Rightarrow> string list" where
  "tokenize line =
     closed_tokens line [] False @
     (if open_token line [] False = [] then [] else [open_token line [] False])"

text \<open>
  The quoting mode after a piece of text: each double quote toggles it, so it is the mode
  before when the number of quotes is even.
\<close>

definition in_quotes_after :: "string \<Rightarrow> bool \<Rightarrow> bool" where
  "in_quotes_after cs q = (if even (length (filter (\<lambda>c. c = DQUOTE) cs)) then q else \<not> q)"

text \<open>
  The invariant of the array \<^verbatim>\<open>tokens\<close> inside the loop: with \<open>n\<close> tokens stored, the
  capacity is the multiple of \<open>INIT_TOKENS\<close> just above \<open>n\<close>.
\<close>

definition cap_ok :: "nat \<Rightarrow> nat \<Rightarrow> bool" where
  "cap_ok n cap = (n < cap \<and> cap \<le> n + INIT_TOKENS \<and> INIT_TOKENS dvd cap)"

subsection \<open>The post-processed tokens\<close>

text \<open>
  The words that the calls of \<^verbatim>\<open>strtok\<close> find in a string, one after the other.
\<close>

function strtok_words :: "string \<Rightarrow> string list" where
  "strtok_words s =
     (case strtok s [SPACE, TAB] of
        None \<Rightarrow> []
      | Some (word, rest) \<Rightarrow> word # strtok_words rest)"
  by pat_completeness auto
termination
  by (relation "measure length") (auto simp: strtok_shorter)

text \<open>
  The token list as the specification words it: each token is expanded, and split into
  its words if and only if the expansion contains a space or a tab; the results follow
  each other in the order of the tokens.
\<close>

definition resplit :: "env \<Rightarrow> string \<Rightarrow> string list" where
  "resplit e t =
     (let expanded = expansion e t in
      if SPACE \<in> set expanded \<or> TAB \<in> set expanded then strtok_words expanded
      else [expanded])"

definition post_processed :: "env \<Rightarrow> string list \<Rightarrow> string list" where
  "post_processed e tokens = concat (map (resplit e) tokens)"

text \<open>
  The invariant of the array \<^verbatim>\<open>new_tokens\<close>: its capacity is \<open>INIT_TOKENS\<close> while it is
  empty, and afterwards the least multiple of \<open>INIT_TOKENS\<close> that is not below the number
  of entries, so that the array is full exactly when that number is a positive multiple of
  \<open>INIT_TOKENS\<close>.
\<close>

definition size_ok :: "nat \<Rightarrow> nat \<Rightarrow> bool" where
  "size_ok count newSize =
     (count \<le> newSize \<and> INIT_TOKENS dvd newSize \<and>
      (if count = 0 then newSize = INIT_TOKENS else newSize < count + INIT_TOKENS))"

subsection \<open>The built-in commands\<close>

text \<open>
  The path that \<^verbatim>\<open>cd\<close> hands to \<^verbatim>\<open>chdir\<close> (lines 332--355), or \<open>None\<close> when it gives up:
  the argument starts with \<open>~\<close>, is not \<open>~\<close> alone, and \<open>HOME\<close> is unset.
\<close>

definition cd_target :: "shell_state \<Rightarrow> string list \<Rightarrow> string option" where
  "cd_target s args =
     (let home = getenv (environ s) ''HOME'' in
      case args of
        [] \<Rightarrow> Some (case home of None \<Rightarrow> ''/'' | Some h \<Rightarrow> h)
      | arg # _ \<Rightarrow>
          if arg = ''~'' then Some (case home of None \<Rightarrow> ''/'' | Some h \<Rightarrow> h)
          else if take 1 arg = ''~'' then
            (case home of None \<Rightarrow> None | Some h \<Rightarrow> Some (take (MAX_LINE - 1) (h @ drop 1 arg)))
          else Some (take (MAX_LINE - 1) arg))"

text \<open>
  The directory change fails when \<^verbatim>\<open>cd\<close> gives up, or when \<^verbatim>\<open>chdir\<close> fails on the path.
\<close>

definition cd_fails :: "filesystem \<Rightarrow> shell_state \<Rightarrow> string list \<Rightarrow> bool" where
  "cd_fails fs s args =
     (case cd_target s args of
        None \<Rightarrow> True
      | Some path \<Rightarrow> (case fs (cwd s) path of Inl e \<Rightarrow> True | Inr d \<Rightarrow> False))"

text \<open>The output of \<^verbatim>\<open>echo\<close> as the specification words it: the arguments joined by single spaces.\<close>

fun join_spaces :: "string list \<Rightarrow> string" where
  "join_spaces [] = []"
| "join_spaces [x] = x"
| "join_spaces (x # y # ys) = x @ [SPACE] @ join_spaces (y # ys)"

text \<open>
  A line that binds the name again: its tokens are \<^verbatim>\<open>export\<close> and an argument that has the
  name before its first \<open>=\<close>.
\<close>

definition rebinds :: "string \<Rightarrow> string \<Rightarrow> bool" where
  "rebinds name line =
     (case parse_input line of
        Inr (t0 # arg # _) \<Rightarrow>
          t0 = ''export'' \<and> CHR ''='' \<in> set arg \<and> takeWhile (\<lambda>c. c \<noteq> CHR ''='') arg = name
      | _ \<Rightarrow> False)"

text \<open>
  The state after a path has been handed to \<^verbatim>\<open>chdir\<close> by \<^verbatim>\<open>cd\<close>: the new working directory,
  or the error reported by \<^verbatim>\<open>perror\<close>.
\<close>

definition chdir_or_report :: "filesystem \<Rightarrow> shell_state \<Rightarrow> string \<Rightarrow> shell_state" where
  "chdir_or_report fs s path =
     (case fs (cwd s) path of
        Inl e \<Rightarrow> s\<lparr>errno := e, stderr := stderr s @ [Perror ''cd'' e]\<rparr>
      | Inr d \<Rightarrow> s\<lparr>cwd := d\<rparr>)"

subsection \<open>States, file systems and kernels of the examples\<close>

text \<open>
  A fresh session in the root directory; a session of a user at home; a session where
  \<open>HOME\<close> and \<open>B\<close> are set.
\<close>

definition session_start :: shell_state where
  "session_start =
     \<lparr>environ = Map.empty, cwd = ''/'', errno = 0, stdout = [], stderr = [], log_txt = []\<rparr>"

definition home_u :: shell_state where
  "home_u = session_start\<lparr>environ := [''HOME'' \<mapsto> ''/home/u''], cwd := ''/home/u''\<rparr>"

definition with_home :: shell_state where
  "with_home = session_start\<lparr>environ := [''HOME'' \<mapsto> ''/root'', ''B'' \<mapsto> ''value'']\<rparr>"

text \<open>
  A file system where every \<^verbatim>\<open>chdir\<close> fails with \<^verbatim>\<open>ENOENT\<close> (2), and one whose only
  directories are literally named \<open>$HOME\<close> and \<open>/root/$B\<close>.
\<close>

definition no_directories :: filesystem where
  "no_directories = (\<lambda>dir path. Inl 2)"

definition literal_dir :: filesystem where
  "literal_dir =
     (\<lambda>dir path. if path = ''$HOME'' then Inr ''/$HOME''
                  else if path = ''/root/$B'' then Inr ''/root/$B''
                  else Inl 2)"

text \<open>
  A kernel whose \<^verbatim>\<open>fork\<close> returns the child 4242 to the parent, and whose \<^verbatim>\<open>waitpid\<close> for
  that child reports that signal 9 killed it.
\<close>

definition killed_child :: kernel where
  "killed_child =
     \<lparr>fork = Fork_parent 4242,
      waitpid = (\<lambda>pid options. if pid = 4242 \<and> options = 0 then Waited (Signaled 9)
                                else Wait_failed 10),
      execvp = (\<lambda>argv. None)\<rparr>"

section \<open>Properties of the Variable Expander\<close>

declare grow_capacity.simps [simp del]

text \<open>From a positive capacity the doubling loop ends, with room for what is needed.\<close>

lemma grow_capacity_Some:
  "0 < capacity \<Longrightarrow>
   \<exists>c'. grow_capacity need capacity = Some c' \<and> need \<le> c' \<and> capacity \<le> c'"
proof (induction need capacity rule: grow_capacity.induct)
  case (1 need capacity)
  show ?case
  proof (cases "need \<le> capacity")
    case True
    then show ?thesis by (simp add: grow_capacity.simps)
  next
    case False
    with "1.prems"
    have "\<exists>c'. grow_capacity need (capacity * 2) = Some c' \<and> need \<le> c' \<and> capacity * 2 \<le> c'"
      using "1.IH" by simp
    then obtain c' where
      "grow_capacity need (capacity * 2) = Some c'" "need \<le> c'" "capacity * 2 \<le> c'"
      by blast
    with False "1.prems" show ?thesis
      by (subst grow_capacity.simps) simp
  qed
qed

text \<open>
  A token without \<open>$\<close> only takes the copying branch, and the single doubling of line 256
  is always enough for one more character.
\<close>

lemma expand_loop_no_dollar:
  "CHR ''$'' \<notin> set cs \<Longrightarrow> length result < capacity \<Longrightarrow>
   expand_loop e cs result capacity = Inr (result @ cs)"
proof (induction cs arbitrary: result capacity)
  case Nil
  show ?case by simp
next
  case (Cons c cs)
  let ?cap = "if capacity < length result + 2 then capacity * 2 else capacity"
  from Cons.prems have c: "c \<noteq> CHR ''$''" and cs: "CHR ''$'' \<notin> set cs" by auto
  from Cons.prems have fits: "length result + 2 \<le> ?cap" by auto
  then have "length (result @ [c]) < ?cap" by simp
  from Cons.IH [OF cs this] c fits show ?case by (simp add: Let_def)
qed

text \<open>
  Claim C9. A token that contains no \<open>$\<close> is returned unchanged by the Variable
  Expander, character for character, whatever the environment holds and however long the
  token is: the expander never faults on it.
\<close>

theorem expand_variable_no_dollar:
  "CHR ''$'' \<notin> set token \<Longrightarrow> expand_variable e token = Inr token"
  using expand_loop_no_dollar [of token "[]" RESULT_CAPACITY e]
  by (simp add: expand_variable_def RESULT_CAPACITY_def)

theorem expand_variable_no_dollar_witness:
  "CHR ''$'' \<notin> set ''ls -l /tmp'' \<and>
   expand_variable [''HOME'' \<mapsto> ''/root''] ''ls -l /tmp'' = Inr ''ls -l /tmp''"
  using expand_variable_no_dollar [of "''ls -l /tmp''" "[''HOME'' \<mapsto> ''/root'']"]
  by simp

subsection \<open>What the expander computes\<close>

text \<open>
  The inner loop returns the longest run of identifier characters, provided it is shorter
  than the buffer: \<^verbatim>\<open>varname\<close> holds 127 characters and the terminator.
\<close>

lemma scan_varname_eq:
  "scan_varname cs varname =
     (if length varname + length (takeWhile ident_char cs) < VARNAME_SIZE
      then Inr (varname @ takeWhile ident_char cs, dropWhile ident_char cs)
      else Inl (Overrun Varname))"
  by (induction cs arbitrary: varname) (auto simp: ident_char_def)

lemma expand_loop_eq:
  "length result < capacity \<Longrightarrow>
   expand_loop e cs result capacity =
     (if names_fit cs then Inr (result @ expansion e cs) else Inl (Overrun Varname))"
proof (induction cs arbitrary: result capacity rule: names_fit.induct)
  case 1
  show ?case by simp
next
  case (2 c cs)
  show ?case
  proof (cases "c = CHR ''$''")
    case True
    let ?name = "takeWhile ident_char cs"
    let ?rest = "dropWhile ident_char cs"
    let ?v = "case getenv e ?name of None \<Rightarrow> [] | Some x \<Rightarrow> x"
    show ?thesis
    proof (cases "length ?name < VARNAME_SIZE")
      case fits: True
      from "2.prems" have "0 < capacity" by simp
      from grow_capacity_Some [OF this, of "length result + length ?v + 1"]
      obtain c' where c': "grow_capacity (length result + length ?v + 1) capacity = Some c'"
        "length result + length ?v + 1 \<le> c'" by blast
      then have "length (result @ ?v) < c'" by simp
      from "2.IH"(1) [OF True this] have
        "expand_loop e ?rest (result @ ?v) c' =
           (if names_fit ?rest then Inr ((result @ ?v) @ expansion e ?rest) else Inl (Overrun Varname))" .
      with True fits c' show ?thesis
        by (simp add: scan_varname_eq Let_def)
    next
      case False
      with True show ?thesis by (simp add: scan_varname_eq)
    qed
  next
    case False
    let ?cap = "if capacity < length result + 2 then capacity * 2 else capacity"
    from "2.prems" have fits: "length result + 2 \<le> ?cap" by auto
    then have "length (result @ [c]) < ?cap" by simp
    from "2.IH"(2) [OF False this] False fits show ?thesis by (simp add: Let_def)
  qed
qed

lemma expand_variable_eq:
  "expand_variable e token =
     (if names_fit token then Inr (expansion e token) else Inl (Overrun Varname))"
  using expand_loop_eq [of "[]" RESULT_CAPACITY e token]
  by (simp add: expand_variable_def RESULT_CAPACITY_def)

text \<open>
  The examples of the specification: with \<open>HOME=/root\<close> the token \<open>$HOME/x\<close> becomes
  \<open>/root/x\<close>; an unset name and a \<open>$\<close> without a name expand to nothing.
\<close>

lemma expand_variable_HOME:
  "expand_variable [''HOME'' \<mapsto> ''/root''] ''$HOME/x'' = Inr ''/root/x''"
  by (simp add: expand_variable_eq ident_char_def isalnum_def getenv_def VARNAME_SIZE_def)

lemma expand_variable_UNSET: "expand_variable Map.empty ''$UNSET'' = Inr []"
  by (simp add: expand_variable_eq ident_char_def isalnum_def getenv_def VARNAME_SIZE_def)

lemma expand_variable_bare_dollar: "expand_variable e ''$'' = Inr []"
  by (simp add: expand_variable_eq getenv_def VARNAME_SIZE_def)

lemma names_fit_ident:
  "\<forall>c \<in> set name. ident_char c \<Longrightarrow> length name < VARNAME_SIZE \<Longrightarrow>
   names_fit (CHR ''$'' # name) \<and>
   expansion e (CHR ''$'' # name) = (case getenv e name of None \<Rightarrow> [] | Some v \<Rightarrow> v)"
proof -
  assume a: "\<forall>c \<in> set name. ident_char c" "length name < VARNAME_SIZE"
  then have tw: "takeWhile ident_char name = name" and dw: "dropWhile ident_char name = []"
    by simp_all
  from a(2) show ?thesis by (simp add: tw dw)
qed

lemma expand_reference:
  "\<forall>c \<in> set name. ident_char c \<Longrightarrow> length name < VARNAME_SIZE \<Longrightarrow>
   expand_variable e (CHR ''$'' # name) = Inr (case getenv e name of None \<Rightarrow> [] | Some v \<Rightarrow> v)"
  using names_fit_ident [of name e] by (simp add: expand_variable_eq)

text \<open>
  A reference \<open>$NAME\<close> inside a token: the text before the \<open>$\<close> is expanded on its own,
  and when no identifier character follows the name, the reference is replaced by the value
  of the name and the text after it is expanded on its own.
\<close>

lemma while_until:
  "\<not> P y \<Longrightarrow> takeWhile P (xs @ y # ys) = takeWhile P xs \<and>
                  dropWhile P (xs @ y # ys) = dropWhile P xs @ y # ys"
  by (induction xs) auto

lemma dollar_no_ident: "\<not> ident_char (CHR ''$'')"
  by (simp add: ident_char_def isalnum_def)

lemma expansion_before_dollar:
  "expansion e (pre @ CHR ''$'' # rest) = expansion e pre @ expansion e (CHR ''$'' # rest) \<and>
   names_fit (pre @ CHR ''$'' # rest) = (names_fit pre \<and> names_fit (CHR ''$'' # rest))"
proof (induction e pre rule: expansion.induct)
  case (1 e)
  show ?case by simp
next
  case (2 e c cs)
  show ?case
  proof (cases "c = CHR ''$''")
    case True
    from while_until [of ident_char "CHR ''$''" cs rest] dollar_no_ident
    have tw: "takeWhile ident_char (cs @ CHR ''$'' # rest) = takeWhile ident_char cs"
      and dw: "dropWhile ident_char (cs @ CHR ''$'' # rest) = dropWhile ident_char cs @ CHR ''$'' # rest"
      by simp_all
    from "2.IH"(1) [OF True]
    have IH: "expansion e (dropWhile ident_char cs @ CHR ''$'' # rest) =
                expansion e (dropWhile ident_char cs) @ expansion e (CHR ''$'' # rest)"
      "names_fit (dropWhile ident_char cs @ CHR ''$'' # rest) =
                (names_fit (dropWhile ident_char cs) \<and> names_fit (CHR ''$'' # rest))"
      by simp_all
    have "expansion e ((c # cs) @ CHR ''$'' # rest) =
            (case getenv e (takeWhile ident_char cs) of None \<Rightarrow> [] | Some v \<Rightarrow> v) @
            expansion e (dropWhile ident_char cs @ CHR ''$'' # rest)"
      using True by (simp add: tw dw)
    moreover have "names_fit ((c # cs) @ CHR ''$'' # rest) =
            (length (takeWhile ident_char cs) < VARNAME_SIZE \<and>
             names_fit (dropWhile ident_char cs @ CHR ''$'' # rest))"
      using True by (simp add: tw dw)
    moreover have "expansion e (c # cs) =
            (case getenv e (takeWhile ident_char cs) of None \<Rightarrow> [] | Some v \<Rightarrow> v) @
            expansion e (dropWhile ident_char cs)"
      "names_fit (c # cs) =
            (length (takeWhile ident_char cs) < VARNAME_SIZE \<and> names_fit (dropWhile ident_char cs))"
      using True by simp_all
    ultimately show ?thesis unfolding IH by (simp only: append_assoc conj_assoc)
  next
    case False
    from "2.IH"(2) [OF False] False show ?thesis by simp
  qed
qed

lemma expansion_reference:
  assumes "\<forall>c \<in> set name. ident_char c" and "takeWhile ident_char post = []"
  shows "expansion e (CHR ''$'' # name @ post) =
           (case getenv e name of None \<Rightarrow> [] | Some v \<Rightarrow> v) @ expansion e post \<and>
         names_fit (CHR ''$'' # name @ post) = (length name < VARNAME_SIZE \<and> names_fit post)"
proof -
  from assms have tw: "takeWhile ident_char (name @ post) = name"
    by simp
  from assms have "dropWhile ident_char (name @ post) = dropWhile ident_char post"
    by simp
  also from assms(2) have "dropWhile ident_char post = post"
    by (cases post) (auto split: if_splits)
  finally have dw: "dropWhile ident_char (name @ post) = post" .
  show ?thesis by (simp add: tw dw)
qed

lemma expand_reference_in_token:
  assumes "\<forall>c \<in> set name. ident_char c" and "takeWhile ident_char post = []"
    and "names_fit (pre @ CHR ''$'' # name @ post)" and "name \<noteq> []" and "e name = Some v"
  shows "expand_variable e (pre @ CHR ''$'' # name @ post) =
           Inr (expansion e pre @ v @ expansion e post)"
proof -
  from expansion_before_dollar [of e pre "name @ post"] expansion_reference [OF assms(1,2), of e]
    assms(4,5)
  have "expansion e (pre @ CHR ''$'' # name @ post) = expansion e pre @ v @ expansion e post"
    by (simp add: getenv_def del: expansion.simps(2) names_fit.simps(2))
  with assms(3) show ?thesis by (simp add: expand_variable_eq del: expansion.simps(2) names_fit.simps(2))
qed

text \<open>
  Claim C2. The claim holds for every token whose names are shorter than 128 characters
  (\<open>expand_variable_eq\<close>), but not for every token: a \<open>$\<close> followed by 128 identifier
  characters makes the inner loop fill \<^verbatim>\<open>char varname[128]\<close> and write the terminator at
  \<open>varname[128]\<close>, past the end of the buffer, whatever the environment holds.
\<close>

theorem expand_variable_long_name:
  "expand_variable e (CHR ''$'' # replicate 128 (CHR ''A'')) = Inl (Overrun Varname)"
  by (simp add: expand_variable_eq ident_char_def isalnum_def VARNAME_SIZE_def)

section \<open>Properties of the Tokenizer\<close>

text \<open>
  Storing a token keeps the invariant, and the array is full after the next token exactly
  when the number of tokens has then become a multiple of \<open>INIT_TOKENS\<close>.
\<close>

lemma cap_ok_push:
  "cap_ok n cap \<Longrightarrow> cap_ok (Suc n) (if cap \<le> n + 1 then cap + INIT_TOKENS else cap)"
  by (auto simp: cap_ok_def)

lemma cap_ok_full: "cap_ok n cap \<Longrightarrow> cap \<le> n + 1 \<longleftrightarrow> INIT_TOKENS dvd (n + 1)"
proof
  assume a: "cap_ok n cap" "cap \<le> n + 1"
  then have "cap = n + 1" by (simp add: cap_ok_def)
  with a show "INIT_TOKENS dvd (n + 1)" by (simp add: cap_ok_def)
next
  assume a: "cap_ok n cap" "INIT_TOKENS dvd (n + 1)"
  then obtain j k where j: "cap = INIT_TOKENS * j" and k: "n + 1 = INIT_TOKENS * k"
    by (auto simp: cap_ok_def dvd_def)
  from a(1) have "n + 1 \<le> cap" "cap < n + 1 + INIT_TOKENS" by (auto simp: cap_ok_def INIT_TOKENS_def)
  with j k have "INIT_TOKENS * k \<le> INIT_TOKENS * j" "INIT_TOKENS * j < INIT_TOKENS * (k + 1)" by auto
  then have "k \<le> j" "j < k + 1" by (auto simp: INIT_TOKENS_def)
  then have "j = k" by simp
  with j k show "cap \<le> n + 1" by simp
qed

text \<open>
  The three cases of the loop body: a double quote, a blank outside quotes, any other
  character.
\<close>

lemma parse_loop_quote:
  "parse_loop (DQUOTE # cs) tokens cap cur q = parse_loop cs tokens cap cur (\<not> q)"
  by simp

lemma parse_loop_blank:
  "c \<noteq> DQUOTE \<Longrightarrow> blank c \<Longrightarrow> \<not> q \<Longrightarrow>
   parse_loop (c # cs) tokens cap cur q =
     (if cur = [] then parse_loop cs tokens cap cur q
      else if MAX_LINE \<le> length cur then Inl (Overrun Current_token)
      else if cap \<le> length tokens then Inl (Overrun Tokens)
      else parse_loop cs (tokens @ [cur])
             (if cap \<le> length tokens + 1 then cap + INIT_TOKENS else cap) [] q)"
  by (auto simp: blank_def)

lemma parse_loop_char:
  "c \<noteq> DQUOTE \<Longrightarrow> \<not> (blank c \<and> \<not> q) \<Longrightarrow>
   parse_loop (c # cs) tokens cap cur q =
     (if MAX_LINE \<le> length cur then Inl (Overrun Current_token)
      else parse_loop cs tokens cap (cur @ [c]) q)"
  by (auto simp: blank_def)

text \<open>
  On input that fits \<^verbatim>\<open>current_token\<close>, and under the invariant, the loop does not fault and
  computes the scan.
\<close>

lemma parse_loop_eq:
  "length cur + length cs < MAX_LINE \<Longrightarrow> cap_ok (length tokens) cap \<Longrightarrow>
   \<exists>cap'. parse_loop cs tokens cap cur q =
            Inr (tokens @ closed_tokens cs cur q, cap', open_token cs cur q) \<and>
          cap_ok (length tokens + length (closed_tokens cs cur q)) cap'"
proof (induction cs arbitrary: tokens cap cur q)
  case Nil
  then show ?case by simp
next
  case (Cons c cs)
  from Cons.prems have len: "\<not> MAX_LINE \<le> length cur" by simp
  from Cons.prems have room: "\<not> cap \<le> length tokens" by (simp add: cap_ok_def)
  from Cons.prems have rest: "length cur + length cs < MAX_LINE" by simp
  consider (quote) "c = DQUOTE"
    | (sep) "c \<noteq> DQUOTE" "blank c" "\<not> q"
    | (char) "c \<noteq> DQUOTE" "\<not> (blank c \<and> \<not> q)"
    by blast
  then show ?case
  proof cases
    case quote
    from Cons.IH [OF rest Cons.prems(2), of "\<not> q"] quote show ?thesis by simp
  next
    case sep
    show ?thesis
    proof (cases "cur = []")
      case True
      from Cons.IH [OF rest Cons.prems(2), of q] True sep show ?thesis
        by (simp add: parse_loop_blank del: parse_loop.simps)
    next
      case False
      let ?cap = "if cap \<le> length tokens + 1 then cap + INIT_TOKENS else cap"
      from Cons.prems have 1: "length ([]::string) + length cs < MAX_LINE" by simp
      from cap_ok_push [OF Cons.prems(2)] have 2: "cap_ok (length (tokens @ [cur])) ?cap"
        by simp
      from Cons.IH [OF 1 2, of q] obtain cap' where
        "parse_loop cs (tokens @ [cur]) ?cap [] q =
           Inr ((tokens @ [cur]) @ closed_tokens cs [] q, cap', open_token cs [] q)"
        "cap_ok (length (tokens @ [cur]) + length (closed_tokens cs [] q)) cap'"
        by blast
      with False sep len room show ?thesis
        by (simp add: parse_loop_blank del: parse_loop.simps)
    qed
  next
    case char
    from Cons.prems have "length (cur @ [c]) + length cs < MAX_LINE" by simp
    from Cons.IH [OF this Cons.prems(2), of q] obtain cap' where
      "parse_loop cs tokens cap (cur @ [c]) q =
         Inr (tokens @ closed_tokens cs (cur @ [c]) q, cap', open_token cs (cur @ [c]) q)"
      "cap_ok (length tokens + length (closed_tokens cs (cur @ [c]) q)) cap'"
      by blast
    with char len show ?thesis
      by (auto simp add: parse_loop_char simp del: parse_loop.simps)
  qed
qed

text \<open>
  The Tokenizer returns the tokens of the line, unless the line ends inside a token and
  the number of tokens is a multiple of \<open>INIT_TOKENS\<close>: the sentinel is written past the
  end of the array then.
\<close>

lemma open_token_length: "length (open_token cs cur q) \<le> length cur + length cs"
proof (induction cs arbitrary: cur q)
  case Nil
  show ?case by simp
next
  case (Cons c cs)
  have 1: "length (open_token cs cur (\<not> q)) \<le> length cur + length cs" by (rule Cons.IH)
  have 2: "length (open_token cs [] q) \<le> length ([]::string) + length cs" by (rule Cons.IH)
  have 3: "length (open_token cs (cur @ [c]) q) \<le> length (cur @ [c]) + length cs" by (rule Cons.IH)
  from 1 2 3 show ?case by auto
qed

lemma parse_input_eq:
  assumes "length line < MAX_LINE"
  shows "parse_input line =
     (if open_token line [] False \<noteq> [] \<and> INIT_TOKENS dvd length (tokenize line)
      then Inl (Overrun Tokens) else Inr (tokenize line))"
proof -
  have 0: "cap_ok (length ([]::string list)) INIT_TOKENS" by (simp add: cap_ok_def INIT_TOKENS_def)
  from assms have "length ([]::string) + length line < MAX_LINE" by simp
  from parse_loop_eq [OF this 0, of False] obtain cap' where
    loop: "parse_loop line [] INIT_TOKENS [] False =
             Inr (closed_tokens line [] False, cap', open_token line [] False)"
    and cap: "cap_ok (length (closed_tokens line [] False)) cap'"
    by auto
  from open_token_length [of line "[]" False] assms
  have len: "\<not> MAX_LINE \<le> length (open_token line [] False)" by simp
  from cap have room: "\<not> cap' \<le> length (closed_tokens line [] False)" by (simp add: cap_ok_def)
  from cap_ok_full [OF cap] loop len room show ?thesis
    by (simp add: parse_input_def tokenize_def)
qed

text \<open>
  A double quote is never copied into a token, and no token is empty.
\<close>

lemma closed_tokens_no_quote:
  "DQUOTE \<notin> set cur \<Longrightarrow> \<forall>t \<in> set (closed_tokens cs cur q). DQUOTE \<notin> set t"
proof (induction cs arbitrary: cur q)
  case Nil
  show ?case by simp
next
  case (Cons c cs)
  have 1: "\<forall>t \<in> set (closed_tokens cs cur (\<not> q)). DQUOTE \<notin> set t"
    using Cons.prems by (rule Cons.IH)
  have 2: "\<forall>t \<in> set (closed_tokens cs [] q). DQUOTE \<notin> set t"
    by (rule Cons.IH) simp
  have 3: "c \<noteq> DQUOTE \<Longrightarrow> \<forall>t \<in> set (closed_tokens cs (cur @ [c]) q). DQUOTE \<notin> set t"
    using Cons.prems by (intro Cons.IH) simp
  from 1 2 3 Cons.prems show ?case by simp
qed

lemma open_token_no_quote:
  "DQUOTE \<notin> set cur \<Longrightarrow> DQUOTE \<notin> set (open_token cs cur q)"
  by (induction cs arbitrary: cur q) auto

lemma closed_tokens_nonempty: "[] \<notin> set (closed_tokens cs cur q)"
  by (induction cs arbitrary: cur q) auto

lemma tokenize_no_quote: "t \<in> set (tokenize line) \<Longrightarrow> DQUOTE \<notin> set t"
  using closed_tokens_no_quote [of "[]" line False] open_token_no_quote [of "[]" line False]
  by (auto simp: tokenize_def split: if_splits)

lemma tokenize_nonempty: "t \<in> set (tokenize line) \<Longrightarrow> t \<noteq> []"
  using closed_tokens_nonempty [of line "[]" False]
  by (auto simp: tokenize_def split: if_splits)

text \<open>
  A blank outside quotes separates: the tokens of the line are the tokens of the text
  before the blank followed by the tokens of the text after it, so runs of blanks and
  blanks at either end of the line add no token.
\<close>

lemma in_quotes_after_Cons:
  "in_quotes_after (c # cs) q = in_quotes_after cs (if c = DQUOTE then \<not> q else q)"
  by (simp add: in_quotes_after_def)

lemma closed_tokens_append:
  "closed_tokens (a @ b) cur q =
     closed_tokens a cur q @ closed_tokens b (open_token a cur q) (in_quotes_after a q)"
  by (induction a arbitrary: cur q) (simp_all add: in_quotes_after_Cons, simp add: in_quotes_after_def)

lemma open_token_append:
  "open_token (a @ b) cur q = open_token b (open_token a cur q) (in_quotes_after a q)"
  by (induction a arbitrary: cur q) (simp_all add: in_quotes_after_Cons, simp add: in_quotes_after_def)

lemma blank_not_quote: "blank c \<Longrightarrow> c \<noteq> DQUOTE"
  by (auto simp: blank_def SPACE_def TAB_def DQUOTE_def)

lemma tokenize_split:
  assumes "blank c" and "even (length (filter (\<lambda>c. c = DQUOTE) a))"
  shows "tokenize (a @ c # b) = tokenize a @ tokenize b"
proof -
  from assms(2) have q: "in_quotes_after a False = False" by (simp add: in_quotes_after_def)
  from assms(1) have c: "c \<noteq> DQUOTE" by (rule blank_not_quote)
  from q c assms(1) show ?thesis
    by (simp add: tokenize_def closed_tokens_append open_token_append)
qed

text \<open>
  Inside quotes every character but the quote is copied, spaces and tabs included.
\<close>

lemma quoted_literal:
  "DQUOTE \<notin> set s \<Longrightarrow> closed_tokens s cur True = [] \<and> open_token s cur True = cur @ s"
  by (induction s arbitrary: cur) auto

lemma no_quote_filter: "DQUOTE \<notin> set s \<Longrightarrow> filter (\<lambda>c. c = DQUOTE) s = []"
  by (induction s) auto

lemma tokenize_quoted:
  assumes "DQUOTE \<notin> set s"
  shows "tokenize (DQUOTE # s @ [DQUOTE]) = (if s = [] then [] else [s])"
proof -
  from assms have "in_quotes_after s True = True" 
    by (simp add: in_quotes_after_def no_quote_filter)
  with quoted_literal [OF assms, of "[]"] show ?thesis
    by (simp add: tokenize_def closed_tokens_append open_token_append)
qed

text \<open>The example of the specification: the line \<^verbatim>\<open>a "b c" d\<close>.\<close>

lemma tokenize_example:
  "tokenize (''a '' @ [DQUOTE] @ ''b c'' @ [DQUOTE] @ '' d'') = [''a'', ''b c'', ''d'']"
  by (simp add: tokenize_def DQUOTE_def blank_def SPACE_def TAB_def)

lemma parse_input_example:
  "parse_input (''a '' @ [DQUOTE] @ ''b c'' @ [DQUOTE] @ '' d'') = Inr [''a'', ''b c'', ''d'']"
  by (simp add: parse_input_def DQUOTE_def SPACE_def TAB_def MAX_LINE_def INIT_TOKENS_def)

text \<open>
  Claim C3. The claim holds for every line of fewer than \<open>MAX_LINE\<close> characters whose
  tokens fit the array (\<open>parse_input_eq\<close>, with \<open>tokenize_no_quote\<close>, \<open>tokenize_nonempty\<close>,
  \<open>tokenize_split\<close> and \<open>tokenize_quoted\<close>), but not for every line: on a line of 100 words
  that does not end in a blank, the loop stores 99 tokens, line 205 stores the last one
  at \<open>tokens[99]\<close> without growing the array, and line 207 writes the sentinel at
  \<open>tokens[100]\<close>, past the end of the array of 100 pointers.
\<close>

theorem parse_input_full:
  "parse_input (concat (replicate 99 ''a '') @ ''a'') = Inl (Overrun Tokens)"
  by (simp add: parse_input_def numeral_eq_Suc DQUOTE_def SPACE_def TAB_def MAX_LINE_def INIT_TOKENS_def)

section \<open>Properties of the Token Post-Processor\<close>

declare strtok_words.simps [simp del]
declare split_words.simps [simp del]

text \<open>
  Under the invariant a token is stored without a fault, and the array is full exactly
  when it holds a positive multiple of \<open>INIT_TOKENS\<close> tokens.
\<close>

lemma push_new_token_ok:
  "size_ok (length new_tokens) newSize \<Longrightarrow>
   \<exists>newSize'. push_new_token new_tokens newSize w = Inr (new_tokens @ [w], newSize') \<and>
              size_ok (length new_tokens + 1) newSize'"
  by (auto simp: push_new_token_def size_ok_def Let_def INIT_TOKENS_def split: if_splits)

lemma size_ok_full:
  "size_ok count newSize \<Longrightarrow> newSize \<le> count \<longleftrightarrow> 0 < count \<and> INIT_TOKENS dvd count"
proof
  assume a: "size_ok count newSize" "newSize \<le> count"
  then have "newSize = count" by (simp add: size_ok_def)
  with a show "0 < count \<and> INIT_TOKENS dvd count"
    by (auto simp: size_ok_def INIT_TOKENS_def split: if_splits)
next
  assume a: "size_ok count newSize" "0 < count \<and> INIT_TOKENS dvd count"
  then obtain j k where j: "newSize = INIT_TOKENS * j" and k: "count = INIT_TOKENS * k"
    by (auto simp: size_ok_def dvd_def)
  from a have "count \<le> newSize" "newSize < count + INIT_TOKENS" by (auto simp: size_ok_def)
  with j k have "INIT_TOKENS * k \<le> INIT_TOKENS * j" "INIT_TOKENS * j < INIT_TOKENS * (k + 1)" by auto
  then have "k \<le> j" "j < k + 1" by (auto simp: INIT_TOKENS_def)
  then have "j = k" by simp
  with j k show "newSize \<le> count" by simp
qed

text \<open>
  The loop over the words and the loop over the tokens compute the post-processed tokens,
  as long as every name fits \<^verbatim>\<open>varname\<close>; the first token with a longer name stops the
  loop with a fault.
\<close>

lemma split_words_eq:
  "size_ok (length new_tokens) newSize \<Longrightarrow>
   \<exists>newSize'. split_words s new_tokens newSize = Inr (new_tokens @ strtok_words s, newSize') \<and>
              size_ok (length new_tokens + length (strtok_words s)) newSize'"
proof (induction s arbitrary: new_tokens newSize rule: strtok_words.induct)
  case (1 s)
  show ?case
  proof (cases "strtok s [SPACE, TAB]")
    case None
    with "1.prems" show ?thesis
      by (simp add: split_words.simps [of s] strtok_words.simps [of s])
  next
    case (Some p)
    obtain word rest where p: "p = (word, rest)" by (cases p)
    from push_new_token_ok [OF "1.prems", of word] obtain n1 where
      push: "push_new_token new_tokens newSize word = Inr (new_tokens @ [word], n1)"
      and ok: "size_ok (length (new_tokens @ [word])) n1" by auto
    from "1.IH" [OF Some p [symmetric] ok] obtain n2 where
      "split_words rest (new_tokens @ [word]) n1 = Inr ((new_tokens @ [word]) @ strtok_words rest, n2)"
      "size_ok (length (new_tokens @ [word]) + length (strtok_words rest)) n2" by blast
    with Some p push show ?thesis
      by (simp add: split_words.simps [of s] strtok_words.simps [of s])
  qed
qed

lemma process_loop_eq:
  "\<forall>t \<in> set ts. names_fit t \<Longrightarrow> size_ok (length new_tokens) newSize \<Longrightarrow>
   \<exists>newSize'. process_loop e ts new_tokens newSize = Inr (new_tokens @ post_processed e ts, newSize') \<and>
              size_ok (length new_tokens + length (post_processed e ts)) newSize'"
proof (induction ts arbitrary: new_tokens newSize)
  case Nil
  then show ?case by (simp add: post_processed_def)
next
  case (Cons t ts)
  from Cons.prems have fit: "names_fit t" and fits: "\<forall>t \<in> set ts. names_fit t" by auto
  from fit have x: "expand_variable e t = Inr (expansion e t)" by (simp add: expand_variable_eq)
  let ?x = "expansion e t"
  have "\<exists>n1. (if SPACE \<in> set ?x \<or> TAB \<in> set ?x then split_words ?x new_tokens newSize
               else push_new_token new_tokens newSize ?x) = Inr (new_tokens @ resplit e t, n1) \<and>
             size_ok (length (new_tokens @ resplit e t)) n1"
  proof (cases "SPACE \<in> set ?x \<or> TAB \<in> set ?x")
    case True
    with split_words_eq [OF Cons.prems(2), of ?x] show ?thesis by (simp add: resplit_def)
  next
    case False
    with push_new_token_ok [OF Cons.prems(2), of ?x] show ?thesis by (simp add: resplit_def)
  qed
  then obtain n1 where
    step: "(if SPACE \<in> set ?x \<or> TAB \<in> set ?x then split_words ?x new_tokens newSize
            else push_new_token new_tokens newSize ?x) = Inr (new_tokens @ resplit e t, n1)"
    and ok: "size_ok (length (new_tokens @ resplit e t)) n1" by blast
  from Cons.IH [OF fits ok] obtain n2 where
    "process_loop e ts (new_tokens @ resplit e t) n1 =
       Inr ((new_tokens @ resplit e t) @ post_processed e ts, n2)"
    "size_ok (length (new_tokens @ resplit e t) + length (post_processed e ts)) n2" by blast
  with x step show ?case
    by (auto simp: post_processed_def add.assoc split: if_splits)
qed

lemma process_loop_unfit:
  "\<not> (\<forall>t \<in> set ts. names_fit t) \<Longrightarrow> size_ok (length new_tokens) newSize \<Longrightarrow>
   process_loop e ts new_tokens newSize = Inl (Overrun Varname)"
proof (induction ts arbitrary: new_tokens newSize)
  case Nil
  then show ?case by simp
next
  case (Cons t ts)
  show ?case
  proof (cases "names_fit t")
    case False
    then show ?thesis by (simp add: expand_variable_eq)
  next
    case True
    with Cons.prems have rest: "\<not> (\<forall>t \<in> set ts. names_fit t)" by simp
    from process_loop_eq [of "[t]" new_tokens newSize e] True Cons.prems(2)
    obtain n1 where
      one: "process_loop e [t] new_tokens newSize = Inr (new_tokens @ resplit e t, n1)"
      and ok: "size_ok (length (new_tokens @ resplit e t)) n1"
      by (auto simp: post_processed_def)
    from Cons.IH [OF rest ok] one True show ?thesis
      by (auto simp: expand_variable_eq split: if_splits sum.splits)
  qed
qed

text \<open>
  The Post-Processor returns the post-processed tokens, unless a name does not fit
  \<^verbatim>\<open>varname\<close>, or the array is full when the sentinel is written.
\<close>

lemma process_tokens_eq:
  "process_tokens e tokens =
     (if \<not> (\<forall>t \<in> set tokens. names_fit t) then Inl (Overrun Varname)
      else if post_processed e tokens \<noteq> [] \<and> INIT_TOKENS dvd length (post_processed e tokens)
      then Inl (Overrun New_tokens)
      else Inr (post_processed e tokens))"
proof -
  have 0: "size_ok (length ([]::string list)) INIT_TOKENS" by (simp add: size_ok_def)
  show ?thesis
  proof (cases "\<forall>t \<in> set tokens. names_fit t")
    case False
    from process_loop_unfit [OF False 0] False show ?thesis by (simp add: process_tokens_def)
  next
    case True
    from process_loop_eq [OF True 0, of e] obtain n where
      loop: "process_loop e tokens [] INIT_TOKENS = Inr (post_processed e tokens, n)"
      and ok: "size_ok (length (post_processed e tokens)) n" by auto
    from size_ok_full [OF ok] loop True show ?thesis by (simp add: process_tokens_def)
  qed
qed

text \<open>The example of the specification: \<open>$LIST\<close> with \<open>LIST="one two"\<close>.\<close>

lemma process_tokens_LIST:
  "process_tokens [''LIST'' \<mapsto> ''one two''] [''$LIST''] = Inr [''one'', ''two'']"
  by (simp add: process_tokens_def expand_variable_eq split_words.simps strtok_def
      push_new_token_def ident_char_def isalnum_def getenv_def VARNAME_SIZE_def SPACE_def
      TAB_def INIT_TOKENS_def)

text \<open>
  The words are those the Tokenizer finds in a text without quotes: the same separators,
  runs of them collapsed, no empty word.
\<close>

lemma blank_delims: "c \<in> set [SPACE, TAB] \<longleftrightarrow> blank c"
  by (auto simp: blank_def)

lemma strtok_blank:
  "strtok s [SPACE, TAB] =
     (let s1 = dropWhile blank s in
      if s1 = [] then None
      else Some (takeWhile (\<lambda>c. \<not> blank c) s1, drop 1 (dropWhile (\<lambda>c. \<not> blank c) s1)))"
proof -
  have 1: "(\<lambda>c. c \<in> set [SPACE, TAB]) = blank" by (rule ext) (simp only: blank_delims)
  have 2: "(\<lambda>c. c \<notin> set [SPACE, TAB]) = (\<lambda>c. \<not> blank c)" by (rule ext) (simp only: blank_delims)
  show ?thesis unfolding strtok_def 1 2 ..
qed

lemma skip_blanks:
  "\<forall>c \<in> set b. blank c \<Longrightarrow>
   closed_tokens (b @ r) [] False = closed_tokens r [] False \<and>
   open_token (b @ r) [] False = open_token r [] False"
  by (induction b) (auto simp: blank_not_quote)

lemma scan_word:
  "\<forall>c \<in> set u. \<not> blank c \<and> c \<noteq> DQUOTE \<Longrightarrow>
   closed_tokens (u @ r) cur False = closed_tokens r (cur @ u) False \<and>
   open_token (u @ r) cur False = open_token r (cur @ u) False"
  by (induction u arbitrary: cur) auto

lemma strtok_words_tokenize:
  "DQUOTE \<notin> set s \<Longrightarrow> strtok_words s = tokenize s"
proof (induction s rule: strtok_words.induct)
  case (1 s)
  let ?b = "takeWhile blank s"
  let ?s1 = "dropWhile blank s"
  let ?w = "takeWhile (\<lambda>c. \<not> blank c) ?s1"
  let ?r = "dropWhile (\<lambda>c. \<not> blank c) ?s1"
  have s: "s = ?b @ ?s1" by simp
  have b: "\<forall>c \<in> set ?b. blank c" by (auto dest: set_takeWhileD)
  from skip_blanks [OF b, of ?s1]
  have skip: "closed_tokens s [] False = closed_tokens ?s1 [] False"
    "open_token s [] False = open_token ?s1 [] False" by simp_all
  show ?case
  proof (cases "?s1 = []")
    case True
    then have "strtok s [SPACE, TAB] = None"
      by (simp add: strtok_blank del: dropWhile_eq_Nil_conv)
    then have "strtok_words s = []" by (simp add: strtok_words.simps [of s])
    moreover from skip have "closed_tokens s [] False = []" "open_token s [] False = []"
      unfolding True by simp_all
    then have "tokenize s = []" by (simp add: tokenize_def)
    ultimately show ?thesis by simp
  next
    case False
    then have tok: "strtok s [SPACE, TAB] = Some (?w, drop 1 ?r)"
      by (simp add: strtok_blank Let_def del: dropWhile_eq_Nil_conv)
    have "set (drop 1 ?r) \<subseteq> set s"
      by (meson set_drop_subset set_dropWhileD subsetI subset_trans)
    with "1.prems" have "DQUOTE \<notin> set (drop 1 ?r)" by blast
    from "1.IH" [OF tok refl this] have IH: "strtok_words (drop 1 ?r) = tokenize (drop 1 ?r)" .
    have s1: "?s1 = ?w @ ?r" by simp
    have "set ?w \<subseteq> set s" by (meson set_takeWhileD set_dropWhileD subsetI)
    with "1.prems" have w: "\<forall>c \<in> set ?w. \<not> blank c \<and> c \<noteq> DQUOTE"
      by (auto dest: set_takeWhileD)
    from False have "\<not> blank (hd ?s1)" by (rule hd_dropWhile)
    with False have wne: "?w \<noteq> []" by (cases ?s1) simp_all
    from scan_word [OF w, of ?r "[]"] s1
    have word: "closed_tokens ?s1 [] False = closed_tokens ?r ?w False"
      "open_token ?s1 [] False = open_token ?r ?w False" by simp_all
    define w where "w = ?w"
    define r where "r = ?r"
    from word skip have scan: "closed_tokens s [] False = closed_tokens r w False"
      "open_token s [] False = open_token r w False" by (simp_all add: w_def r_def)
    from wne have w_ne: "w \<noteq> []" by (simp add: w_def)
    have "tokenize s = w # tokenize (drop 1 r)"
    proof (cases r)
      case Nil
      with scan w_ne show ?thesis by (simp add: tokenize_def)
    next
      case (Cons c r')
      have "r \<noteq> [] \<Longrightarrow> \<not> \<not> blank (hd r)" unfolding r_def by (rule hd_dropWhile)
      with Cons have "blank c" by simp
      with Cons scan w_ne show ?thesis by (simp add: tokenize_def blank_not_quote)
    qed
    then have "tokenize s = ?w # tokenize (drop 1 ?r)" by (simp add: w_def r_def)
    with tok IH show ?thesis by (simp add: strtok_words.simps [of s])
  qed
qed

lemma expand_variable_a: "expand_variable e ''a'' = Inr ''a''"
  by (simp add: expand_variable_eq)

text \<open>
  Claim C1. The claim holds for every token list whose names fit \<^verbatim>\<open>varname\<close> and whose
  result is not a positive multiple of 100 tokens long (\<open>process_tokens_eq\<close>, with
  \<open>strtok_words_tokenize\<close>), but not for every token list: the array grows only before a
  token is stored, so after the hundredth token it is full, and line 322 writes the sentinel
  at \<open>new_tokens[100]\<close>, past the end of the array of 100 pointers.
\<close>

theorem process_tokens_full:
  "process_tokens e (replicate 100 ''a'') = Inl (Overrun New_tokens)"
  by (simp add: process_tokens_def numeral_eq_Suc expand_variable_a push_new_token_def
      SPACE_def TAB_def INIT_TOKENS_def)

section \<open>Properties of the built-in commands\<close>

text \<open>Only \<^verbatim>\<open>export\<close> changes the environment.\<close>

lemma chdir_environ: "environ (fst (chdir fs s p)) = environ s"
  by (simp add: chdir_def split: sum.splits)

lemma cd_home_environ: "environ (cd_home fs s) = environ s"
  by (simp add: cd_home_def chdir_def perror_def Let_def split: sum.splits)

lemma cd_path_environ: "environ (cd_path fs s arg) = environ s"
  by (simp add: cd_path_def chdir_def perror_def split: sum.splits list.splits option.splits)

lemma builtin_environ:
  "execute_shell_builtin fs s (t0 # args) = Inr s' \<Longrightarrow> t0 \<noteq> ''export'' \<Longrightarrow>
   environ s' = environ s"
  by (auto simp: execute_shell_builtin_def cd_home_environ cd_path_environ
      split: if_splits list.splits sum.splits)

lemma execute_command_environ:
  "execute_command k s argv bg = Returned s' \<Longrightarrow> environ s' = environ s"
  by (auto simp: execute_command_def perror_def
      split: fork_result.splits waitpid_result.splits wstatus.splits option.splits if_splits)

lemma shell_cycle_environ:
  assumes "shell_cycle k fs s line = Inr (Continue s')"
    and "\<forall>args. parse_input line \<noteq> Inr (''export'' # args)"
  shows "environ s' = environ s"
proof (cases "parse_input line")
  case (Inl f)
  with assms(1) show ?thesis by (simp add: shell_cycle_def)
next
  case (Inr tokens)
  show ?thesis
  proof (cases tokens)
    case Nil
    with Inr assms(1) show ?thesis by (simp add: shell_cycle_def)
  next
    case (Cons t0 args)
    with Inr assms(2) have ne: "t0 \<noteq> ''export''" by auto
    show ?thesis
    proof (cases "t0 = ''cd'' \<or> t0 = ''echo''")
      case True
      with Inr Cons assms(1) ne
      have "execute_shell_builtin fs s (t0 # args) = Inr s'"
        by (auto simp: shell_cycle_def split: sum.splits if_splits)
      from builtin_environ [OF this ne] show ?thesis .
    next
      case False
      with Inr Cons assms(1) ne obtain argv bg where
        "execute_command k s argv bg = Returned s'"
        by (auto simp: shell_cycle_def Let_def split: sum.splits if_splits launch.splits)
      then show ?thesis by (rule execute_command_environ)
    qed
  qed
qed

subsection \<open>\<^verbatim>\<open>export\<close>\<close>

text \<open>
  The argument is cut at its first \<open>=\<close>: a non-empty name is bound to the text behind it,
  an empty name makes \<^verbatim>\<open>setenv\<close> fail.
\<close>

lemma cut_at_equals:
  "CHR ''='' \<notin> set name \<Longrightarrow>
   takeWhile (\<lambda>c. c \<noteq> CHR ''='') (name @ CHR ''='' # v) = name \<and>
   drop 1 (dropWhile (\<lambda>c. c \<noteq> CHR ''='') (name @ CHR ''='' # v)) = v"
  by (induction name) auto

lemma export_binds:
  "name \<noteq> [] \<Longrightarrow> CHR ''='' \<notin> set name \<Longrightarrow>
   export s ((name @ CHR ''='' # v) # rest) = s\<lparr>environ := (environ s)(name \<mapsto> v)\<rparr>"
  using cut_at_equals [of name v] by (simp add: export_def setenv_def Let_def)

lemma export_empty_name:
  "export s ((CHR ''='' # v) # rest) = perror ''export'' (s\<lparr>errno := EINVAL\<rparr>)"
  by (simp add: export_def setenv_def)

lemma export_usage:
  "export s [] = s\<lparr>stderr := stderr s @ [Fprintf ''export: missing argument\<newline>'']\<rparr>"
  "CHR ''='' \<notin> set arg \<Longrightarrow>
   export s (arg # rest) = s\<lparr>stderr := stderr s @ [Fprintf ''export: invalid argument\<newline>'']\<rparr>"
  by (simp_all add: export_def)

lemma builtin_export: "execute_shell_builtin fs s (''export'' # args) = Inr (export s args)"
  by (simp add: execute_shell_builtin_def)

text \<open>
  A cycle keeps the binding of a name unless its line binds the name again, and so does
  every run of the loop over such lines.
\<close>

lemma export_keeps_binding:
  "\<not> (\<exists>arg rest. args = arg # rest \<and> CHR ''='' \<in> set arg \<and>
        takeWhile (\<lambda>c. c \<noteq> CHR ''='') arg = name) \<Longrightarrow>
   environ (export s args) name = environ s name"
  by (cases args) (auto simp: export_def setenv_def perror_def Let_def split: option.splits if_splits)

lemma shell_cycle_binding:
  assumes "shell_cycle k fs s line = Inr (Continue s')" and "\<not> rebinds name line"
  shows "environ s' name = environ s name"
proof (cases "\<exists>args. parse_input line = Inr (''export'' # args)")
  case False
  then have "\<forall>args. parse_input line \<noteq> Inr (''export'' # args)" by blast
  from shell_cycle_environ [OF assms(1) this] show ?thesis by simp
next
  case True
  then obtain args where p: "parse_input line = Inr (''export'' # args)" by blast
  with assms(1) have s': "s' = export s args"
    by (simp add: shell_cycle_def execute_shell_builtin_def)
  from p assms(2) have "\<not> (\<exists>arg rest. args = arg # rest \<and> CHR ''='' \<in> set arg \<and>
        takeWhile (\<lambda>c. c \<noteq> CHR ''='') arg = name)"
    by (auto simp: rebinds_def)
  from export_keeps_binding [OF this] s' show ?thesis by simp
qed

lemma shell_binding:
  "shell steps s = Inr (Continue s') \<Longrightarrow>
   \<forall>step \<in> set steps. \<not> rebinds name (snd (snd step)) \<Longrightarrow>
   environ s' name = environ s name"
proof (induction steps arbitrary: s)
  case Nil
  then show ?case by simp
next
  case (Cons step steps)
  obtain k fs line where step: "step = (k, fs, line)" by (cases step)
  from Cons.prems(1) step obtain s1 where
    one: "shell_cycle k fs s line = Inr (Continue s1)" and
    more: "shell steps s1 = Inr (Continue s')"
    by (auto split: sum.splits cycle.splits)
  from Cons.prems(2) step have "\<not> rebinds name line" by simp
  from shell_cycle_binding [OF one this] have "environ s1 name = environ s name" .
  moreover from Cons.prems(2) have "\<forall>step \<in> set steps. \<not> rebinds name (snd (snd step))" by simp
  from Cons.IH [OF more this] have "environ s' name = environ s1 name" .
  ultimately show ?case by simp
qed

text \<open>
  Claim C4, as amended. \<^verbatim>\<open>export\<close> without an argument, or with an argument that contains
  no \<open>=\<close>, reports a usage error and leaves the whole state but standard error unchanged.
  With an argument \<open>NAME=VALUE\<close> whose name is not empty it cuts at the first \<open>=\<close> and binds
  the name to the value, literally, and \<^verbatim>\<open>getenv\<close> finds the value, also after any later
  cycles of the session whose lines do not bind the name again. When the name consists of
  letters, digits and underscores, every expansion after such cycles replaces a reference
  \<open>$NAME\<close> that no further letter, digit or underscore follows by the value, wherever the
  reference stands in the token, provided the names in the token fit \<^verbatim>\<open>varname\<close>. With an
  argument that starts with \<open>=\<close> the name is empty: \<^verbatim>\<open>setenv\<close> fails, the failure is
  reported by \<^verbatim>\<open>perror\<close> and no binding is made.
\<close>

theorem export_builtin:
  "execute_shell_builtin fs s [''export''] =
     Inr (s\<lparr>stderr := stderr s @ [Fprintf ''export: missing argument\<newline>'']\<rparr>) \<and>
   (CHR ''='' \<notin> set arg \<longrightarrow>
      execute_shell_builtin fs s (''export'' # arg # rest) =
        Inr (s\<lparr>stderr := stderr s @ [Fprintf ''export: invalid argument\<newline>'']\<rparr>)) \<and>
   (name \<noteq> [] \<and> CHR ''='' \<notin> set name \<longrightarrow>
      execute_shell_builtin fs s (''export'' # (name @ CHR ''='' # v) # rest) =
        Inr (s\<lparr>environ := (environ s)(name \<mapsto> v)\<rparr>) \<and>
      getenv ((environ s)(name \<mapsto> v)) name = Some v \<and>
      ((\<forall>c \<in> set name. ident_char c) \<and> length name < VARNAME_SIZE \<longrightarrow>
         expand_variable ((environ s)(name \<mapsto> v)) (CHR ''$'' # name) = Inr v)) \<and>
   execute_shell_builtin fs s (''export'' # (CHR ''='' # v) # rest) =
     Inr (s\<lparr>errno := EINVAL, stderr := stderr s @ [Perror ''export'' EINVAL]\<rparr>) \<and>
   (shell_cycle k fs' s1 line = Inr (Continue s2) \<and>
    (\<forall>args. parse_input line \<noteq> Inr (''export'' # args)) \<longrightarrow>
      environ s2 = environ s1) \<and>
   (name \<noteq> [] \<and> CHR ''='' \<notin> set name \<and>
    shell steps (s\<lparr>environ := (environ s)(name \<mapsto> v)\<rparr>) = Inr (Continue s3) \<and>
    (\<forall>step \<in> set steps. \<not> rebinds name (snd (snd step))) \<longrightarrow>
      getenv (environ s3) name = Some v \<and>
      ((\<forall>c \<in> set name. ident_char c) \<and> takeWhile ident_char post = [] \<and>
       names_fit (pre @ CHR ''$'' # name @ post) \<longrightarrow>
         expand_variable (environ s3) (pre @ CHR ''$'' # name @ post) =
           Inr (expansion (environ s3) pre @ v @ expansion (environ s3) post)))"
proof (intro conjI impI)
  show "execute_shell_builtin fs s [''export''] =
     Inr (s\<lparr>stderr := stderr s @ [Fprintf ''export: missing argument\<newline>'']\<rparr>)"
    by (simp add: builtin_export export_usage)
next
  assume "CHR ''='' \<notin> set arg"
  then show "execute_shell_builtin fs s (''export'' # arg # rest) =
        Inr (s\<lparr>stderr := stderr s @ [Fprintf ''export: invalid argument\<newline>'']\<rparr>)"
    by (simp add: builtin_export export_usage)
next
  assume "name \<noteq> [] \<and> CHR ''='' \<notin> set name"
  then show "execute_shell_builtin fs s (''export'' # (name @ CHR ''='' # v) # rest) =
        Inr (s\<lparr>environ := (environ s)(name \<mapsto> v)\<rparr>)"
    by (simp add: builtin_export export_binds)
next
  assume "name \<noteq> [] \<and> CHR ''='' \<notin> set name"
  then show "getenv ((environ s)(name \<mapsto> v)) name = Some v"
    by (simp add: getenv_def)
next
  assume "name \<noteq> [] \<and> CHR ''='' \<notin> set name"
    and "(\<forall>c \<in> set name. ident_char c) \<and> length name < VARNAME_SIZE"
  then show "expand_variable ((environ s)(name \<mapsto> v)) (CHR ''$'' # name) = Inr v"
    by (simp add: expand_reference getenv_def)
next
  show "execute_shell_builtin fs s (''export'' # (CHR ''='' # v) # rest) =
     Inr (s\<lparr>errno := EINVAL, stderr := stderr s @ [Perror ''export'' EINVAL]\<rparr>)"
    by (simp add: builtin_export export_empty_name perror_def)
next
  assume "shell_cycle k fs' s1 line = Inr (Continue s2) \<and>
    (\<forall>args. parse_input line \<noteq> Inr (''export'' # args))"
  then show "environ s2 = environ s1"
    using shell_cycle_environ [of k fs' s1 line s2] by blast
next
  assume a: "name \<noteq> [] \<and> CHR ''='' \<notin> set name \<and>
    shell steps (s\<lparr>environ := (environ s)(name \<mapsto> v)\<rparr>) = Inr (Continue s3) \<and>
    (\<forall>step \<in> set steps. \<not> rebinds name (snd (snd step)))"
  then have "environ s3 name = environ (s\<lparr>environ := (environ s)(name \<mapsto> v)\<rparr>) name"
    using shell_binding [of steps "s\<lparr>environ := (environ s)(name \<mapsto> v)\<rparr>" s3 name] by blast
  with a show "getenv (environ s3) name = Some v" by (simp add: getenv_def)
next
  assume a: "name \<noteq> [] \<and> CHR ''='' \<notin> set name \<and>
    shell steps (s\<lparr>environ := (environ s)(name \<mapsto> v)\<rparr>) = Inr (Continue s3) \<and>
    (\<forall>step \<in> set steps. \<not> rebinds name (snd (snd step)))"
    and b: "(\<forall>c \<in> set name. ident_char c) \<and> takeWhile ident_char post = [] \<and>
       names_fit (pre @ CHR ''$'' # name @ post)"
  from a have "environ s3 name = environ (s\<lparr>environ := (environ s)(name \<mapsto> v)\<rparr>) name"
    using shell_binding [of steps "s\<lparr>environ := (environ s)(name \<mapsto> v)\<rparr>" s3 name] by blast
  then have bound: "environ s3 name = Some v" by simp
  from a b bound show "expand_variable (environ s3) (pre @ CHR ''$'' # name @ post) =
           Inr (expansion (environ s3) pre @ v @ expansion (environ s3) post)"
    using expand_reference_in_token [of name post pre "environ s3" v] by blast
qed

lemma parse_cd_x: "parse_input ''cd /x'' = Inr [''cd'', ''/x'']"
  by (simp add: parse_input_def DQUOTE_def SPACE_def TAB_def MAX_LINE_def INIT_TOKENS_def)

theorem export_builtin_witness:
  "execute_shell_builtin no_directories session_start [''export''] =
     Inr (session_start\<lparr>stderr := [Fprintf ''export: missing argument\<newline>'']\<rparr>) \<and>
   execute_shell_builtin no_directories session_start [''export'', ''FOO''] =
     Inr (session_start\<lparr>stderr := [Fprintf ''export: invalid argument\<newline>'']\<rparr>) \<and>
   execute_shell_builtin no_directories session_start [''export'', ''FOO=bar''] =
     Inr (session_start\<lparr>environ := [''FOO'' \<mapsto> ''bar'']\<rparr>) \<and>
   expand_variable [''FOO'' \<mapsto> ''bar''] ''$FOO'' = Inr ''bar'' \<and>
   shell [(killed_child, no_directories, ''cd /x'')]
     (session_start\<lparr>environ := [''FOO'' \<mapsto> ''bar'']\<rparr>) =
     Inr (Continue (session_start\<lparr>environ := [''FOO'' \<mapsto> ''bar''], errno := 2,
                                   stderr := [Perror ''cd'' 2]\<rparr>)) \<and>
   \<not> rebinds ''FOO'' ''cd /x'' \<and>
   expand_variable [''FOO'' \<mapsto> ''bar''] ''a$FOO/b'' = Inr ''abar/b''"
proof -
  have run: "shell [(killed_child, no_directories, ''cd /x'')]
     (session_start\<lparr>environ := [''FOO'' \<mapsto> ''bar'']\<rparr>) =
     Inr (Continue (session_start\<lparr>environ := [''FOO'' \<mapsto> ''bar''], errno := 2,
                                   stderr := [Perror ''cd'' 2]\<rparr>))"
    by (simp add: shell_cycle_def parse_cd_x execute_shell_builtin_def cd_path_def chdir_def
        perror_def no_directories_def session_start_def MAX_LINE_def)
  have quiet: "\<not> rebinds ''FOO'' ''cd /x''"
    by (simp add: rebinds_def parse_cd_x)
  from export_builtin [where fs = no_directories and s = session_start and arg = "''FOO''"
      and rest = "[]" and name = "''FOO''" and v = "''bar''"
      and steps = "[(killed_child, no_directories, ''cd /x'')]"
      and ?s3.0 = "session_start\<lparr>environ := [''FOO'' \<mapsto> ''bar''], errno := 2,
                                   stderr := [Perror ''cd'' 2]\<rparr>"
      and pre = "''a''" and post = "''/b''"]
    run quiet
  show ?thesis
    by (simp add: session_start_def ident_char_def isalnum_def VARNAME_SIZE_def getenv_def)
qed

text \<open>
  The claim as it was stated fails on \<^verbatim>\<open>export =x\<close>: the argument contains \<open>=\<close>, yet no
  binding is made and an error is reported. It also fails on \<^verbatim>\<open>export A-B=x\<close>: the binding
  is made, but the expansion of \<open>$A-B\<close> reads the name \<open>A\<close> and copies \<open>-B\<close>.
\<close>

theorem export_empty_name_counterexample:
  "CHR ''='' \<in> set ''=x'' \<and>
   execute_shell_builtin no_directories session_start [''export'', ''=x''] =
     Inr (session_start\<lparr>errno := EINVAL, stderr := [Perror ''export'' EINVAL]\<rparr>) \<and>
   environ (session_start\<lparr>errno := EINVAL, stderr := [Perror ''export'' EINVAL]\<rparr>) = Map.empty \<and>
   execute_shell_builtin no_directories session_start [''export'', ''A-B=x''] =
     Inr (session_start\<lparr>environ := [''A-B'' \<mapsto> ''x'']\<rparr>) \<and>
   expand_variable [''A-B'' \<mapsto> ''x''] ''$A-B'' = Inr ''-B''"
  by (simp add: execute_shell_builtin_def export_def setenv_def perror_def session_start_def
      expand_variable_eq ident_char_def isalnum_def getenv_def VARNAME_SIZE_def)

subsection \<open>\<^verbatim>\<open>cd\<close>\<close>

text \<open>
  \<^verbatim>\<open>cd\<close> hands its target to \<^verbatim>\<open>chdir\<close>; a built-in line is handed to the built-in as the
  Tokenizer returned it.
\<close>

lemma builtin_cd:
  "execute_shell_builtin fs s (''cd'' # args) =
     Inr (case cd_target s args of
            None \<Rightarrow> perror ''HOME not set'' s
          | Some path \<Rightarrow>
              (case fs (cwd s) path of
                 Inl e \<Rightarrow> perror ''cd'' (s\<lparr>errno := e\<rparr>)
               | Inr d \<Rightarrow> s\<lparr>cwd := d\<rparr>))"
  by (auto simp: execute_shell_builtin_def cd_target_def cd_home_def cd_path_def chdir_def Let_def
      split: list.splits option.splits sum.splits)

lemma shell_cycle_builtin:
  "parse_input line = Inr (t0 # args) \<Longrightarrow> t0 = ''cd'' \<or> t0 = ''echo'' \<or> t0 = ''export'' \<Longrightarrow>
   shell_cycle k fs s line =
     (case execute_shell_builtin fs s (t0 # args) of
        Inl f \<Rightarrow> Inl f
      | Inr s' \<Rightarrow> Inr (Continue s'))"
  by (auto simp: shell_cycle_def)

text \<open>
  Claim C5. When the directory change of \<^verbatim>\<open>cd\<close> fails, the built-in returns a state
  that differs from the one before only in \<^verbatim>\<open>errno\<close> and in one \<^verbatim>\<open>perror\<close> message added to
  standard error: the working directory, the environment and standard output are the
  same. The cycle of a line with these tokens ends in \<open>Continue\<close>: the session goes on.
\<close>

theorem cd_failure:
  assumes "cd_fails fs s args"
  shows "\<exists>s' msg. execute_shell_builtin fs s (''cd'' # args) = Inr s' \<and>
           cwd s' = cwd s \<and>
           stderr s' = stderr s @ [Perror msg (errno s')] \<and>
           environ s' = environ s \<and> stdout s' = stdout s \<and>
           (\<forall>k line. parse_input line = Inr (''cd'' # args) \<longrightarrow>
              shell_cycle k fs s line = Inr (Continue s'))"
proof -
  have "\<exists>msg e. execute_shell_builtin fs s (''cd'' # args) =
          Inr (perror msg (s\<lparr>errno := e\<rparr>))"
  proof (cases "cd_target s args")
    case None
    then have "execute_shell_builtin fs s (''cd'' # args) =
        Inr (perror ''HOME not set'' (s\<lparr>errno := errno s\<rparr>))"
      by (simp add: builtin_cd)
    then show ?thesis by blast
  next
    case (Some path)
    with assms obtain e where "fs (cwd s) path = Inl e"
      by (auto simp: cd_fails_def split: sum.splits)
    with Some have "execute_shell_builtin fs s (''cd'' # args) =
        Inr (perror ''cd'' (s\<lparr>errno := e\<rparr>))"
      by (simp add: builtin_cd)
    then show ?thesis by blast
  qed
  then obtain msg e where
    run: "execute_shell_builtin fs s (''cd'' # args) = Inr (perror msg (s\<lparr>errno := e\<rparr>))"
    by blast
  let ?s' = "perror msg (s\<lparr>errno := e\<rparr>)"
  have "cwd ?s' = cwd s" "stderr ?s' = stderr s @ [Perror msg (errno ?s')]"
    "environ ?s' = environ s" "stdout ?s' = stdout s"
    by (simp_all add: perror_def)
  moreover have "\<forall>k line. parse_input line = Inr (''cd'' # args) \<longrightarrow>
      shell_cycle k fs s line = Inr (Continue ?s')"
    using run by (simp add: shell_cycle_builtin)
  ultimately show ?thesis using run by blast
qed

theorem cd_failure_witness:
  "cd_fails no_directories home_u [''/does/not/exist''] \<and>
   execute_shell_builtin no_directories home_u [''cd'', ''/does/not/exist''] =
     Inr (home_u\<lparr>errno := 2, stderr := [Perror ''cd'' 2]\<rparr>) \<and>
   cd_fails no_directories session_start [''~/x''] \<and>
   execute_shell_builtin no_directories session_start [''cd'', ''~/x''] =
     Inr (session_start\<lparr>stderr := [Perror ''HOME not set'' 0]\<rparr>)"
proof -
  have 1: "cd_fails no_directories home_u [''/does/not/exist'']"
    by (simp add: cd_fails_def cd_target_def no_directories_def)
  have 2: "cd_fails no_directories session_start [''~/x'']"
    by (simp add: cd_fails_def cd_target_def session_start_def getenv_def)
  from cd_failure [OF 1] cd_failure [OF 2] 1 2 show ?thesis
    by (simp add: builtin_cd cd_target_def perror_def no_directories_def home_u_def
        session_start_def getenv_def MAX_LINE_def)
qed

subsection \<open>\<^verbatim>\<open>echo\<close>\<close>

text \<open>
  When the names fit \<^verbatim>\<open>varname\<close> and the joined expansions fit the buffer, \<^verbatim>\<open>echo\<close> prints
  them and a newline; without arguments it prints nothing; an expansion of \<open>MAX_LINE\<close>
  characters or more overruns the buffer.
\<close>

lemma echo_loop_eq:
  "\<forall>t \<in> set ts. names_fit t \<Longrightarrow>
   length (buffer @ join_spaces (map (expansion e) ts)) < MAX_LINE \<Longrightarrow>
   echo_loop e ts buffer = Inr (buffer @ join_spaces (map (expansion e) ts))"
proof (induction ts arbitrary: buffer)
  case Nil
  show ?case by simp
next
  case (Cons t ts)
  from Cons.prems have x: "expand_variable e t = Inr (expansion e t)"
    by (simp add: expand_variable_eq)
  show ?case
  proof (cases ts)
    case Nil
    with Cons.prems x show ?thesis by simp
  next
    case (Cons u us)
    let ?b = "buffer @ expansion e t @ [SPACE]"
    from Cons Cons.prems have fits: "\<forall>t \<in> set ts. names_fit t"
      and len: "length (?b @ join_spaces (map (expansion e) ts)) < MAX_LINE" by simp_all
    from Cons.IH [OF fits len] len x Cons show ?thesis by simp
  qed
qed

lemma echo_prints:
  assumes "args \<noteq> []" and "\<forall>t \<in> set args. names_fit t"
    and "length (join_spaces (map (expansion (environ s)) args)) < MAX_LINE"
  shows "execute_shell_builtin fs s (''echo'' # args) =
     Inr (s\<lparr>stdout := stdout s @ join_spaces (map (expansion (environ s)) args) @ [NEWLINE]\<rparr>)"
  using assms echo_loop_eq [of args "[]" "environ s"]
  by (simp add: execute_shell_builtin_def)

lemma echo_nothing: "execute_shell_builtin fs s [''echo''] = Inr s"
  by (simp add: execute_shell_builtin_def)

lemma echo_overflow_general:
  assumes "environ s ''A'' = Some v" and "MAX_LINE \<le> length v"
  shows "execute_shell_builtin fs s [''echo'', ''$A''] = Inl (Overrun Echo_buffer)"
proof -
  have "expand_variable (environ s) ''$A'' = Inr v"
    using assms(1) expand_reference [of "''A''" "environ s"]
    by (simp add: ident_char_def isalnum_def VARNAME_SIZE_def getenv_def)
  with assms(2) show ?thesis by (simp add: execute_shell_builtin_def)
qed

text \<open>
  Claim C6. The claim holds when the names fit \<^verbatim>\<open>varname\<close> and the joined expansions are
  shorter than \<open>MAX_LINE\<close> (\<open>echo_prints\<close>), and without arguments (\<open>echo_nothing\<close>), but
  not for every invocation: \<^verbatim>\<open>strcat\<close> copies the expansions into \<^verbatim>\<open>char buffer[MAX_LINE]\<close>
  without looking at their length, so a value of 1024 characters is written past the end
  of the buffer.
\<close>

theorem echo_overflow:
  "execute_shell_builtin fs
     (s\<lparr>environ := [''A'' \<mapsto> replicate 1024 (CHR ''x'')]\<rparr>) [''echo'', ''$A''] =
   Inl (Overrun Echo_buffer)"
  by (rule echo_overflow_general [where v = "replicate 1024 (CHR ''x'')"])
     (simp_all add: MAX_LINE_def)

section \<open>Properties of the Process Launcher and the Reaper\<close>

text \<open>The loop of the Reaper writes to the log file only.\<close>

lemma reap_loop_output:
  "stderr (reap_loop zs lw s) = stderr s \<and> stdout (reap_loop zs lw s) = stdout s"
  by (induction zs arbitrary: s) (auto simp: Let_def split: option.splits sum.splits)

text \<open>
  In the parent, a foreground launch asks the kernel for one thing: \<^verbatim>\<open>waitpid\<close> on the
  process id that \<^verbatim>\<open>fork\<close> returned, with options \<open>0\<close>. What it writes depends on the answer
  alone: the signal diagnostic when the answer is the status of a child killed by a signal,
  nothing when it is the status of a normal exit, and the message of \<^verbatim>\<open>perror\<close> when the call
  fails. A background launch returns at once and writes nothing, and the Reaper writes to
  neither standard stream.
\<close>

lemma execute_command_parent:
  assumes "fork k = Fork_parent pid"
  shows "execute_command k s tokens False =
           Returned (case waitpid k pid 0 of
                       Wait_failed e \<Rightarrow> perror ''waitpid'' (s\<lparr>errno := e\<rparr>)
                     | Waited (Signaled n) \<Rightarrow>
                         s\<lparr>stderr := stderr s @
                           [Fprintf_d ''Child terminated abnormally by signal %d\<newline>'' n]\<rparr>
                     | Waited (Exited n) \<Rightarrow> s) \<and>
         (waitpid k pid 0 = Waited (Signaled n) \<longrightarrow>
            execute_command k s tokens False =
              Returned (s\<lparr>stderr := stderr s @
                [Fprintf_d ''Child terminated abnormally by signal %d\<newline>'' n]\<rparr>)) \<and>
         (waitpid k pid 0 = Waited (Exited n) \<longrightarrow>
            execute_command k s tokens False = Returned s) \<and>
         (\<forall>s'. execute_command k s tokens False = Returned s' \<longrightarrow>
            (\<exists>sig. stderr s' = stderr s @
               [Fprintf_d ''Child terminated abnormally by signal %d\<newline>'' sig]) =
            (\<exists>sig. waitpid k pid 0 = Waited (Signaled sig))) \<and>
         execute_command k s tokens True = Returned s \<and>
         stderr (on_child_exit zombies last_wait s) = stderr s \<and>
         stdout (on_child_exit zombies last_wait s) = stdout s"
proof -
  have run: "execute_command k s tokens False =
           Returned (case waitpid k pid 0 of
                       Wait_failed e \<Rightarrow> perror ''waitpid'' (s\<lparr>errno := e\<rparr>)
                     | Waited (Signaled n) \<Rightarrow>
                         s\<lparr>stderr := stderr s @
                           [Fprintf_d ''Child terminated abnormally by signal %d\<newline>'' n]\<rparr>
                     | Waited (Exited n) \<Rightarrow> s)"
    using assms
    by (simp add: execute_command_def split: waitpid_result.splits wstatus.splits)
  have iff: "\<forall>s'. execute_command k s tokens False = Returned s' \<longrightarrow>
            (\<exists>sig. stderr s' = stderr s @
               [Fprintf_d ''Child terminated abnormally by signal %d\<newline>'' sig]) =
            (\<exists>sig. waitpid k pid 0 = Waited (Signaled sig))"
    unfolding run
    by (auto simp: perror_def split: waitpid_result.splits wstatus.splits)
  have bg: "execute_command k s tokens True = Returned s"
    using assms by (simp add: execute_command_def)
  from run iff bg reap_loop_output [of zombies last_wait s] show ?thesis
    by (simp add: on_child_exit_def Let_def)
qed

text \<open>
  When the handler has not run before line 421, \<^verbatim>\<open>waitpid\<close> finds the child and the launch
  does what the specification says.
\<close>

lemma foreground_launch_undisturbed:
  "foreground_launch pid (Signaled n) False io s tokens =
     Returned (s\<lparr>stderr := stderr s @
       [Fprintf_d ''Child terminated abnormally by signal %d\<newline>'' n]\<rparr>) \<and>
   foreground_launch pid (Exited n) False io s tokens = Returned s"
  by (simp add: foreground_launch_def execute_command_def wait_for_def)

text \<open>
  Claim C7. The claim holds when the launcher's own \<^verbatim>\<open>waitpid\<close> collects the child
  (\<open>foreground_launch_undisturbed\<close>, \<open>execute_command_parent\<close>), but not for every
  foreground command. The handler of \<^verbatim>\<open>SIGCHLD\<close> waits for any child, the foreground child
  included. When that child is killed by a signal and the handler runs before line 421, the
  handler collects it; \<^verbatim>\<open>waitpid\<close> at line 421 then fails with \<^verbatim>\<open>ECHILD\<close>, and standard error
  receives the message of \<^verbatim>\<open>perror("waitpid")\<close> and no diagnostic that names the signal.
\<close>

theorem foreground_child_reaped_first:
  "foreground_launch pid (Signaled n) True io s tokens =
     Returned (perror ''waitpid'' ((on_child_exit [io pid] (Some ECHILD) s)\<lparr>errno := ECHILD\<rparr>)) \<and>
   stderr (perror ''waitpid'' ((on_child_exit [io pid] (Some ECHILD) s)\<lparr>errno := ECHILD\<rparr>)) =
     stderr s @ [Perror ''waitpid'' ECHILD]"
  using reap_loop_output [of "[io pid]" "Some ECHILD" s]
  by (simp add: foreground_launch_def sigchld_def execute_command_def wait_for_def perror_def
      on_child_exit_def Let_def)

text \<open>
  Claim C8. Whatever children the Reaper collects, whether \<^verbatim>\<open>open\<close>, \<^verbatim>\<open>write\<close> and
  \<^verbatim>\<open>close\<close> succeed or fail on the log file, and however the last \<^verbatim>\<open>waitpid\<close> ends,
  \<^verbatim>\<open>errno\<close> has the value on return that it had on entry.
\<close>

theorem reaper_restores_errno:
  "errno (on_child_exit zombies last_wait s) = errno s"
  by (simp add: on_child_exit_def Let_def)

text \<open>
  The restoring assignment is needed: the loop itself changes \<^verbatim>\<open>errno\<close>, for instance
  when the last \<^verbatim>\<open>waitpid\<close> finds no child left (\<^verbatim>\<open>ECHILD\<close>, 10).
\<close>

lemma reap_loop_sets_errno:
  "errno (reap_loop [] (Some 10) (session_start\<lparr>errno := 4\<rparr>)) = 10"
  by simp

section \<open>Built-in dispatch\<close>

text \<open>
  An argument of \<^verbatim>\<open>cd\<close> that does not start with \<open>~\<close> is the path itself, cut to the size
  of the buffer \<^verbatim>\<open>new_path\<close>.
\<close>

lemma cd_target_plain:
  "take 1 arg \<noteq> ''~'' \<Longrightarrow> cd_target s (arg # rest) = Some (take (MAX_LINE - 1) arg)"
  by (auto simp: cd_target_def Let_def)

lemma cd_target_tilde:
  "suffix \<noteq> [] \<Longrightarrow>
   cd_target s ((CHR ''~'' # suffix) # rest) =
     (case getenv (environ s) ''HOME'' of
        None \<Rightarrow> None
      | Some h \<Rightarrow> Some (take (MAX_LINE - 1) (h @ suffix)))"
  by (simp add: cd_target_def Let_def split: option.splits)

lemma cd_target_home:
  "cd_target s [] = Some (case getenv (environ s) ''HOME'' of None \<Rightarrow> ''/'' | Some h \<Rightarrow> h) \<and>
   cd_target s (''~'' # rest) =
     Some (case getenv (environ s) ''HOME'' of None \<Rightarrow> ''/'' | Some h \<Rightarrow> h)"
  by (simp add: cd_target_def Let_def)

lemma builtin_cd_path:
  "cd_target s args = Some path \<Longrightarrow>
   execute_shell_builtin fs s (''cd'' # args) = Inr (chdir_or_report fs s path)"
  by (simp add: builtin_cd chdir_or_report_def perror_def split: sum.splits)

text \<open>
  Claim C10. A line whose first raw token is \<^verbatim>\<open>cd\<close>, \<^verbatim>\<open>export\<close> or \<^verbatim>\<open>echo\<close> is handed to the
  built-in as the Tokenizer left it: the Post-Processor does not run. For every such line
  of \<^verbatim>\<open>cd\<close> and of \<^verbatim>\<open>export\<close> the cycle ends in a state that is given here from the text of
  the tokens alone. \<^verbatim>\<open>cd\<close> hands to \<^verbatim>\<open>chdir\<close> the value of \<open>HOME\<close> (or \<open>/\<close>) when it has no
  argument or the argument \<open>~\<close>, the value of \<open>HOME\<close> followed by the text after the \<open>~\<close> when
  the argument starts with \<open>~\<close>, and the text of the argument otherwise; \<^verbatim>\<open>export\<close> binds the
  text before the first \<open>=\<close> to the text after it. A \<open>$\<close> in these texts is a character like
  any other. \<^verbatim>\<open>echo\<close> prints the expansions of its arguments.
\<close>

theorem builtins_take_raw_tokens:
  "(parse_input line = Inr (t0 # args) \<and> (t0 = ''cd'' \<or> t0 = ''export'' \<or> t0 = ''echo'') \<longrightarrow>
      shell_cycle k fs s line =
        (case execute_shell_builtin fs s (t0 # args) of
           Inl f \<Rightarrow> Inl f
         | Inr s' \<Rightarrow> Inr (Continue s'))) \<and>
   (parse_input line = Inr [''cd''] \<or> parse_input line = Inr (''cd'' # ''~'' # rest) \<longrightarrow>
      shell_cycle k fs s line =
        Inr (Continue (chdir_or_report fs s
          (case getenv (environ s) ''HOME'' of None \<Rightarrow> ''/'' | Some h \<Rightarrow> h)))) \<and>
   (parse_input line = Inr (''cd'' # (CHR ''~'' # suffix) # rest) \<and> suffix \<noteq> [] \<longrightarrow>
      shell_cycle k fs s line =
        Inr (Continue
          (case getenv (environ s) ''HOME'' of
             None \<Rightarrow> perror ''HOME not set'' s
           | Some h \<Rightarrow> chdir_or_report fs s (take (MAX_LINE - 1) (h @ suffix))))) \<and>
   (parse_input line = Inr (''cd'' # arg # rest) \<and> take 1 arg \<noteq> ''~'' \<longrightarrow>
      shell_cycle k fs s line =
        Inr (Continue (chdir_or_report fs s (take (MAX_LINE - 1) arg)))) \<and>
   (parse_input line = Inr [''export''] \<longrightarrow>
      shell_cycle k fs s line =
        Inr (Continue (s\<lparr>stderr := stderr s @ [Fprintf ''export: missing argument\<newline>'']\<rparr>))) \<and>
   (parse_input line = Inr (''export'' # arg # rest) \<and> CHR ''='' \<notin> set arg \<longrightarrow>
      shell_cycle k fs s line =
        Inr (Continue (s\<lparr>stderr := stderr s @ [Fprintf ''export: invalid argument\<newline>'']\<rparr>))) \<and>
   (parse_input line = Inr (''export'' # (name @ CHR ''='' # v) # rest) \<and>
    name \<noteq> [] \<and> CHR ''='' \<notin> set name \<longrightarrow>
      shell_cycle k fs s line = Inr (Continue (s\<lparr>environ := (environ s)(name \<mapsto> v)\<rparr>))) \<and>
   (parse_input line = Inr (''export'' # (CHR ''='' # v) # rest) \<longrightarrow>
      shell_cycle k fs s line =
        Inr (Continue (s\<lparr>errno := EINVAL, stderr := stderr s @ [Perror ''export'' EINVAL]\<rparr>))) \<and>
   (parse_input line = Inr (''echo'' # args) \<and> args \<noteq> [] \<and> (\<forall>t \<in> set args. names_fit t) \<and>
    length (join_spaces (map (expansion (environ s)) args)) < MAX_LINE \<longrightarrow>
      shell_cycle k fs s line =
        Inr (Continue (s\<lparr>stdout := stdout s @
          join_spaces (map (expansion (environ s)) args) @ [NEWLINE]\<rparr>)))"
proof (intro conjI impI)
  assume "parse_input line = Inr (t0 # args) \<and> (t0 = ''cd'' \<or> t0 = ''export'' \<or> t0 = ''echo'')"
  then show "shell_cycle k fs s line =
        (case execute_shell_builtin fs s (t0 # args) of
           Inl f \<Rightarrow> Inl f
         | Inr s' \<Rightarrow> Inr (Continue s'))"
    using shell_cycle_builtin [of line t0 args k fs s] by blast
next
  let ?home = "case getenv (environ s) ''HOME'' of None \<Rightarrow> ''/'' | Some h \<Rightarrow> h"
  assume "parse_input line = Inr [''cd''] \<or> parse_input line = Inr (''cd'' # ''~'' # rest)"
  then show "shell_cycle k fs s line = Inr (Continue (chdir_or_report fs s ?home))"
  proof
    assume p: "parse_input line = Inr [''cd'']"
    from cd_target_home [of s] have "cd_target s [] = Some ?home" by simp
    from builtin_cd_path [OF this, of fs] shell_cycle_builtin [OF p, of k fs s]
    show ?thesis by simp
  next
    assume p: "parse_input line = Inr (''cd'' # ''~'' # rest)"
    from cd_target_home [of s rest] have "cd_target s (''~'' # rest) = Some ?home" by simp
    from builtin_cd_path [OF this, of fs] shell_cycle_builtin [OF p, of k fs s]
    show ?thesis by simp
  qed
next
  assume a: "parse_input line = Inr (''cd'' # (CHR ''~'' # suffix) # rest) \<and> suffix \<noteq> []"
  then have p: "parse_input line = Inr (''cd'' # (CHR ''~'' # suffix) # rest)" by simp
  from a have t: "cd_target s ((CHR ''~'' # suffix) # rest) =
     (case getenv (environ s) ''HOME'' of
        None \<Rightarrow> None
      | Some h \<Rightarrow> Some (take (MAX_LINE - 1) (h @ suffix)))"
    by (simp add: cd_target_tilde)
  show "shell_cycle k fs s line =
        Inr (Continue
          (case getenv (environ s) ''HOME'' of
             None \<Rightarrow> perror ''HOME not set'' s
           | Some h \<Rightarrow> chdir_or_report fs s (take (MAX_LINE - 1) (h @ suffix))))"
  proof (cases "getenv (environ s) ''HOME''")
    case None
    with t have "execute_shell_builtin fs s (''cd'' # (CHR ''~'' # suffix) # rest) =
        Inr (perror ''HOME not set'' s)"
      by (simp add: builtin_cd)
    with None shell_cycle_builtin [OF p, of k fs s] show ?thesis by simp
  next
    case (Some h)
    with t have "cd_target s ((CHR ''~'' # suffix) # rest) = Some (take (MAX_LINE - 1) (h @ suffix))"
      by simp
    from builtin_cd_path [OF this, of fs] Some shell_cycle_builtin [OF p, of k fs s]
    show ?thesis by simp
  qed
next
  assume a: "parse_input line = Inr (''cd'' # arg # rest) \<and> take 1 arg \<noteq> ''~''"
  then have p: "parse_input line = Inr (''cd'' # arg # rest)" by simp
  from a have "cd_target s (arg # rest) = Some (take (MAX_LINE - 1) arg)"
    by (simp add: cd_target_plain)
  from builtin_cd_path [OF this, of fs] shell_cycle_builtin [OF p, of k fs s]
  show "shell_cycle k fs s line = Inr (Continue (chdir_or_report fs s (take (MAX_LINE - 1) arg)))"
    by simp
next
  assume p: "parse_input line = Inr [''export'']"
  from shell_cycle_builtin [OF p, of k fs s]
  show "shell_cycle k fs s line =
        Inr (Continue (s\<lparr>stderr := stderr s @ [Fprintf ''export: missing argument\<newline>'']\<rparr>))"
    by (simp add: builtin_export export_usage)
next
  assume a: "parse_input line = Inr (''export'' # arg # rest) \<and> CHR ''='' \<notin> set arg"
  then have p: "parse_input line = Inr (''export'' # arg # rest)" by simp
  from a shell_cycle_builtin [OF p, of k fs s]
  show "shell_cycle k fs s line =
        Inr (Continue (s\<lparr>stderr := stderr s @ [Fprintf ''export: invalid argument\<newline>'']\<rparr>))"
    by (simp add: builtin_export export_usage)
next
  assume a: "parse_input line = Inr (''export'' # (name @ CHR ''='' # v) # rest) \<and>
    name \<noteq> [] \<and> CHR ''='' \<notin> set name"
  then have p: "parse_input line = Inr (''export'' # (name @ CHR ''='' # v) # rest)" by simp
  from a shell_cycle_builtin [OF p, of k fs s]
  show "shell_cycle k fs s line = Inr (Continue (s\<lparr>environ := (environ s)(name \<mapsto> v)\<rparr>))"
    by (simp add: builtin_export export_binds)
next
  assume p: "parse_input line = Inr (''export'' # (CHR ''='' # v) # rest)"
  from shell_cycle_builtin [OF p, of k fs s]
  show "shell_cycle k fs s line =
        Inr (Continue (s\<lparr>errno := EINVAL, stderr := stderr s @ [Perror ''export'' EINVAL]\<rparr>))"
    by (simp add: builtin_export export_empty_name perror_def)
next
  assume a: "parse_input line = Inr (''echo'' # args) \<and> args \<noteq> [] \<and>
    (\<forall>t \<in> set args. names_fit t) \<and>
    length (join_spaces (map (expansion (environ s)) args)) < MAX_LINE"
  then have p: "parse_input line = Inr (''echo'' # args)" by simp
  from a have "execute_shell_builtin fs s (''echo'' # args) =
     Inr (s\<lparr>stdout := stdout s @ join_spaces (map (expansion (environ s)) args) @ [NEWLINE]\<rparr>)"
    using echo_prints [of args s fs] by blast
  with shell_cycle_builtin [OF p, of k fs s]
  show "shell_cycle k fs s line =
        Inr (Continue (s\<lparr>stdout := stdout s @
          join_spaces (map (expansion (environ s)) args) @ [NEWLINE]\<rparr>))"
    by simp
qed

lemma parse_cd_HOME: "parse_input ''cd $HOME'' = Inr [''cd'', ''$HOME'']"
  by (simp add: parse_input_def DQUOTE_def SPACE_def TAB_def MAX_LINE_def INIT_TOKENS_def)

lemma parse_cd_tilde_B: "parse_input ''cd ~/$B'' = Inr [''cd'', ''~/$B'']"
  by (simp add: parse_input_def DQUOTE_def SPACE_def TAB_def MAX_LINE_def INIT_TOKENS_def)

lemma parse_export_A: "parse_input ''export A=$B'' = Inr [''export'', ''A=$B'']"
  by (simp add: parse_input_def DQUOTE_def SPACE_def TAB_def MAX_LINE_def INIT_TOKENS_def)

lemma parse_echo_B: "parse_input ''echo $B'' = Inr [''echo'', ''$B'']"
  by (simp add: parse_input_def DQUOTE_def SPACE_def TAB_def MAX_LINE_def INIT_TOKENS_def)

theorem builtins_take_raw_tokens_witness:
  "parse_input ''cd $HOME'' = Inr [''cd'', ''$HOME''] \<and>
   shell_cycle killed_child literal_dir with_home ''cd $HOME'' =
     Inr (Continue (with_home\<lparr>cwd := ''/$HOME''\<rparr>)) \<and>
   parse_input ''cd ~/$B'' = Inr [''cd'', ''~/$B''] \<and>
   shell_cycle killed_child literal_dir with_home ''cd ~/$B'' =
     Inr (Continue (with_home\<lparr>cwd := ''/root/$B''\<rparr>)) \<and>
   parse_input ''export A=$B'' = Inr [''export'', ''A=$B''] \<and>
   shell_cycle killed_child literal_dir with_home ''export A=$B'' =
     Inr (Continue (with_home\<lparr>environ :=
       [''HOME'' \<mapsto> ''/root'', ''B'' \<mapsto> ''value'', ''A'' \<mapsto> ''$B'']\<rparr>)) \<and>
   parse_input ''echo $B'' = Inr [''echo'', ''$B''] \<and>
   shell_cycle killed_child literal_dir with_home ''echo $B'' =
     Inr (Continue (with_home\<lparr>stdout := ''value\<newline>''\<rparr>))"
  using
    builtins_take_raw_tokens [where line = "''cd $HOME''" and k = killed_child
      and fs = literal_dir and s = with_home and arg = "''$HOME''" and rest = "[]"]
    builtins_take_raw_tokens [where line = "''cd ~/$B''" and k = killed_child
      and fs = literal_dir and s = with_home and suffix = "''/$B''" and rest = "[]"]
    builtins_take_raw_tokens [where line = "''export A=$B''" and k = killed_child
      and fs = literal_dir and s = with_home and name = "''A''" and v = "''$B''" and rest = "[]"]
    builtins_take_raw_tokens [where line = "''echo $B''" and k = killed_child
      and fs = literal_dir and s = with_home and args = "[''$B'']"]
  by (simp add: parse_cd_HOME parse_cd_tilde_B parse_export_A parse_echo_B literal_dir_def
      with_home_def session_start_def chdir_or_report_def ident_char_def isalnum_def getenv_def
      VARNAME_SIZE_def MAX_LINE_def NEWLINE_def)

end
